theory Spec2Isabelle
  imports Main "HOL-Library.Word"
begin

text \<open>
  A shallow embedding of the protocol engine of the CC2500 driver: the CRC-16 engine, the
  hopping-table generator, the calibration store, the packet codec and the timer-driven
  link sequencer. Bytes are 8-bit words, \<^verbatim>\<open>uint16_t\<close> values are 16-bit words,
  the driver's static variables are the fields of one record that every operation takes
  and returns, and the calls into the chip transport are recorded in a trace. The
  diagnostic \<^verbatim>\<open>printf\<close> calls, the unused statics (statistics, telemetry status,
  \<^verbatim>\<open>bindOffset\<close>) and the empty functions at the end of the file are left out.
\<close>

unbundle bit_operations_syntax

section \<open>CC2500 hopping-radio driver (src/lib/cc2500.c)\<close>

type_synonym u8 = "8 word"
type_synonym u16 = "16 word"

subsection \<open>CRC-16 engine\<close>

text \<open>The 256-entry lookup table \<^verbatim>\<open>CRCTable\<close>, entry for entry as in the source.\<close>

definition CRCTable :: "u16 list" where
  "CRCTable =
    [
     0x0000, 0x1189, 0x2312, 0x329B, 0x4624, 0x57AD, 0x6536, 0x74BF,
     0x8C48, 0x9DC1, 0xAF5A, 0xBED3, 0xCA6C, 0xDBE5, 0xE97E, 0xF8F7,
     0x1081, 0x0108, 0x3393, 0x221A, 0x56A5, 0x472C, 0x75B7, 0x643E,
     0x9CC9, 0x8D40, 0xBFDB, 0xAE52, 0xDAED, 0xCB64, 0xF9FF, 0xE876,
     0x2102, 0x308B, 0x0210, 0x1399, 0x6726, 0x76AF, 0x4434, 0x55BD,
     0xAD4A, 0xBCC3, 0x8E58, 0x9FD1, 0xEB6E, 0xFAE7, 0xC87C, 0xD9F5,
     0x3183, 0x200A, 0x1291, 0x0318, 0x77A7, 0x662E, 0x54B5, 0x453C,
     0xBDCB, 0xAC42, 0x9ED9, 0x8F50, 0xFBEF, 0xEA66, 0xD8FD, 0xC974,
     0x4204, 0x538D, 0x6116, 0x709F, 0x0420, 0x15A9, 0x2732, 0x36BB,
     0xCE4C, 0xDFC5, 0xED5E, 0xFCD7, 0x8868, 0x99E1, 0xAB7A, 0xBAF3,
     0x5285, 0x430C, 0x7197, 0x601E, 0x14A1, 0x0528, 0x37B3, 0x263A,
     0xDECD, 0xCF44, 0xFDDF, 0xEC56, 0x98E9, 0x8960, 0xBBFB, 0xAA72,
     0x6306, 0x728F, 0x4014, 0x519D, 0x2522, 0x34AB, 0x0630, 0x17B9,
     0xEF4E, 0xFEC7, 0xCC5C, 0xDDD5, 0xA96A, 0xB8E3, 0x8A78, 0x9BF1,
     0x7387, 0x620E, 0x5095, 0x411C, 0x35A3, 0x242A, 0x16B1, 0x0738,
     0xFFCF, 0xEE46, 0xDCDD, 0xCD54, 0xB9EB, 0xA862, 0x9AF9, 0x8B70,
     0x8408, 0x9581, 0xA71A, 0xB693, 0xC22C, 0xD3A5, 0xE13E, 0xF0B7,
     0x0840, 0x19C9, 0x2B52, 0x3ADB, 0x4E64, 0x5FED, 0x6D76, 0x7CFF,
     0x9489, 0x8500, 0xB79B, 0xA612, 0xD2AD, 0xC324, 0xF1BF, 0xE036,
     0x18C1, 0x0948, 0x3BD3, 0x2A5A, 0x5EE5, 0x4F6C, 0x7DF7, 0x6C7E,
     0xA50A, 0xB483, 0x8618, 0x9791, 0xE32E, 0xF2A7, 0xC03C, 0xD1B5,
     0x2942, 0x38CB, 0x0A50, 0x1BD9, 0x6F66, 0x7EEF, 0x4C74, 0x5DFD,
     0xB58B, 0xA402, 0x9699, 0x8710, 0xF3AF, 0xE226, 0xD0BD, 0xC134,
     0x39C3, 0x284A, 0x1AD1, 0x0B58, 0x7FE7, 0x6E6E, 0x5CF5, 0x4D7C,
     0xC60C, 0xD785, 0xE51E, 0xF497, 0x8028, 0x91A1, 0xA33A, 0xB2B3,
     0x4A44, 0x5BCD, 0x6956, 0x78DF, 0x0C60, 0x1DE9, 0x2F72, 0x3EFB,
     0xD68D, 0xC704, 0xF59F, 0xE416, 0x90A9, 0x8120, 0xB3BB, 0xA232,
     0x5AC5, 0x4B4C, 0x79D7, 0x685E, 0x1CE1, 0x0D68, 0x3FF3, 0x2E7A,
     0xE70E, 0xF687, 0xC41C, 0xD595, 0xA12A, 0xB0A3, 0x8238, 0x93B1,
     0x6B46, 0x7ACF, 0x4854, 0x59DD, 0x2D62, 0x3CEB, 0x0E70, 0x1FF9,
     0xF78F, 0xE606, 0xD49D, 0xC514, 0xB1AB, 0xA022, 0x92B9, 0x8330,
     0x7BC7, 0x6A4E, 0x58D5, 0x495C, 0x3DE3, 0x2C6A, 0x1EF1, 0x0F78
    ]"

text \<open>
  One iteration of the loop of \<^verbatim>\<open>calc_crc\<close>:
  \<^verbatim>\<open>crc = (crc<<8) ^ (CRCTable[((uint8_t)(crc>>8) ^ *data++) & 0xFF]);\<close>
  The assignment to the 16-bit \<^verbatim>\<open>crc\<close> truncates, which the 16-bit word does.
\<close>

definition crc_step :: "u16 \<Rightarrow> u8 \<Rightarrow> u16" where
  "crc_step crc d =
     push_bit 8 crc XOR CRCTable ! unat (((ucast (drop_bit 8 crc) :: u8) XOR d) AND 0xFF)"

text \<open>The loop \<^verbatim>\<open>for (i=0; i < len; i++)\<close> over the bytes at \<^verbatim>\<open>data\<close>.\<close>

fun calc_crc_loop :: "u16 \<Rightarrow> u8 list \<Rightarrow> u16" where
  "calc_crc_loop crc [] = crc"
| "calc_crc_loop crc (d # ds) = calc_crc_loop (crc_step crc d) ds"

definition calc_crc :: "u8 list \<Rightarrow> u8 \<Rightarrow> u16" where
  "calc_crc data len = calc_crc_loop 0 (take (unat len) data)"

text \<open>
  The bitwise reference the table is compared with, written from the specification:
  CRC-16/CCITT with the polynomial 0x1021 reflected (0x8408), one byte run through eight
  shift steps from the initial value 0.
\<close>

definition crc16_reflected_shift :: "u16 \<Rightarrow> u16" where
  "crc16_reflected_shift crc =
     (if bit crc 0 then drop_bit 1 crc XOR 0x8408 else drop_bit 1 crc)"

fun crc16_reflected_bits :: "nat \<Rightarrow> u16 \<Rightarrow> u16" where
  "crc16_reflected_bits 0 crc = crc"
| "crc16_reflected_bits (Suc n) crc = crc16_reflected_bits n (crc16_reflected_shift crc)"

definition crc16_reflected_byte :: "u8 \<Rightarrow> u16" where
  "crc16_reflected_byte b = crc16_reflected_bits 8 (0 XOR ucast b)"

subsection \<open>Driver state and chip transport\<close>

abbreviation NUM_CHANNELS :: nat where "NUM_CHANNELS \<equiv> 47"

abbreviation (input) CC2500_03_FIFOTHR :: u8 where "CC2500_03_FIFOTHR \<equiv> 0x03"
abbreviation (input) CC2500_02_IOCFG0 :: u8 where "CC2500_02_IOCFG0 \<equiv> 0x02"
abbreviation (input) CC2500_06_PKTLEN :: u8 where "CC2500_06_PKTLEN \<equiv> 0x06"
abbreviation (input) CC2500_07_PKTCTRL1 :: u8 where "CC2500_07_PKTCTRL1 \<equiv> 0x07"
abbreviation (input) CC2500_08_PKTCTRL0 :: u8 where "CC2500_08_PKTCTRL0 \<equiv> 0x08"
abbreviation (input) CC2500_09_ADDR :: u8 where "CC2500_09_ADDR \<equiv> 0x09"
abbreviation (input) CC2500_0A_CHANNR :: u8 where "CC2500_0A_CHANNR \<equiv> 0x0A"
abbreviation (input) CC2500_0B_FSCTRL1 :: u8 where "CC2500_0B_FSCTRL1 \<equiv> 0x0B"
abbreviation (input) CC2500_0C_FSCTRL0 :: u8 where "CC2500_0C_FSCTRL0 \<equiv> 0x0C"
abbreviation (input) CC2500_0D_FREQ2 :: u8 where "CC2500_0D_FREQ2 \<equiv> 0x0D"
abbreviation (input) CC2500_0E_FREQ1 :: u8 where "CC2500_0E_FREQ1 \<equiv> 0x0E"
abbreviation (input) CC2500_0F_FREQ0 :: u8 where "CC2500_0F_FREQ0 \<equiv> 0x0F"
abbreviation (input) CC2500_10_MDMCFG4 :: u8 where "CC2500_10_MDMCFG4 \<equiv> 0x10"
abbreviation (input) CC2500_11_MDMCFG3 :: u8 where "CC2500_11_MDMCFG3 \<equiv> 0x11"
abbreviation (input) CC2500_12_MDMCFG2 :: u8 where "CC2500_12_MDMCFG2 \<equiv> 0x12"
abbreviation (input) CC2500_13_MDMCFG1 :: u8 where "CC2500_13_MDMCFG1 \<equiv> 0x13"
abbreviation (input) CC2500_14_MDMCFG0 :: u8 where "CC2500_14_MDMCFG0 \<equiv> 0x14"
abbreviation (input) CC2500_15_DEVIATN :: u8 where "CC2500_15_DEVIATN \<equiv> 0x15"
abbreviation (input) CC2500_17_MCSM1 :: u8 where "CC2500_17_MCSM1 \<equiv> 0x17"
abbreviation (input) CC2500_18_MCSM0 :: u8 where "CC2500_18_MCSM0 \<equiv> 0x18"
abbreviation (input) CC2500_19_FOCCFG :: u8 where "CC2500_19_FOCCFG \<equiv> 0x19"
abbreviation (input) CC2500_1A_BSCFG :: u8 where "CC2500_1A_BSCFG \<equiv> 0x1A"
abbreviation (input) CC2500_1B_AGCCTRL2 :: u8 where "CC2500_1B_AGCCTRL2 \<equiv> 0x1B"
abbreviation (input) CC2500_1C_AGCCTRL1 :: u8 where "CC2500_1C_AGCCTRL1 \<equiv> 0x1C"
abbreviation (input) CC2500_1D_AGCCTRL0 :: u8 where "CC2500_1D_AGCCTRL0 \<equiv> 0x1D"
abbreviation (input) CC2500_21_FREND1 :: u8 where "CC2500_21_FREND1 \<equiv> 0x21"
abbreviation (input) CC2500_22_FREND0 :: u8 where "CC2500_22_FREND0 \<equiv> 0x22"
abbreviation (input) CC2500_23_FSCAL3 :: u8 where "CC2500_23_FSCAL3 \<equiv> 0x23"
abbreviation (input) CC2500_24_FSCAL2 :: u8 where "CC2500_24_FSCAL2 \<equiv> 0x24"
abbreviation (input) CC2500_25_FSCAL1 :: u8 where "CC2500_25_FSCAL1 \<equiv> 0x25"
abbreviation (input) CC2500_26_FSCAL0 :: u8 where "CC2500_26_FSCAL0 \<equiv> 0x26"
abbreviation (input) CC2500_2C_TEST2 :: u8 where "CC2500_2C_TEST2 \<equiv> 0x2C"
abbreviation (input) CC2500_2D_TEST1 :: u8 where "CC2500_2D_TEST1 \<equiv> 0x2D"
abbreviation (input) CC2500_2E_TEST0 :: u8 where "CC2500_2E_TEST0 \<equiv> 0x2E"
abbreviation (input) CC2500_30_PARTNUM :: u8 where "CC2500_30_PARTNUM \<equiv> 0x30"
abbreviation (input) CC2500_31_VERSION :: u8 where "CC2500_31_VERSION \<equiv> 0x31"
abbreviation (input) CC2500_3E_PATABLE :: u8 where "CC2500_3E_PATABLE \<equiv> 0x3E"
abbreviation (input) CC2500_3F_TXFIFO :: u8 where "CC2500_3F_TXFIFO \<equiv> 0x3F"

abbreviation (input) CC2500_WRITE_SINGLE :: u8 where "CC2500_WRITE_SINGLE \<equiv> 0x00"
abbreviation (input) CC2500_WRITE_BURST :: u8 where "CC2500_WRITE_BURST \<equiv> 0x40"
abbreviation (input) CC2500_READ_SINGLE :: u8 where "CC2500_READ_SINGLE \<equiv> 0x80"
abbreviation (input) CC2500_READ_BURST :: u8 where "CC2500_READ_BURST \<equiv> 0xC0"

abbreviation (input) CC2500_SRES :: u8 where "CC2500_SRES \<equiv> 0x30"
abbreviation (input) CC2500_SCAL :: u8 where "CC2500_SCAL \<equiv> 0x33"
abbreviation (input) CC2500_SRX :: u8 where "CC2500_SRX \<equiv> 0x34"
abbreviation (input) CC2500_STX :: u8 where "CC2500_STX \<equiv> 0x35"
abbreviation (input) CC2500_SIDLE :: u8 where "CC2500_SIDLE \<equiv> 0x36"
abbreviation (input) CC2500_SFRX :: u8 where "CC2500_SFRX \<equiv> 0x3A"
abbreviation (input) CC2500_SFTX :: u8 where "CC2500_SFTX \<equiv> 0x3B"

text \<open>The three functions the sequencer hands to the timer.\<close>

datatype callback = Send_bind_packet | Send_normal_packet | Start_receive

datatype pin = RADIO_PACTL | RADIO_CE | RADIO_INT

datatype pin_mode = GPIO_OUTPUT_PUSHPULL | GPIO_INPUT_FLOAT_IRQ

text \<open>
  What the driver does to the outside world, one event for each call that leaves the file:
  a register write, a register read, a strobe, a burst write to the TX FIFO (with the bytes
  written), the GPIO calls and the busy-wait delay.
\<close>

datatype event =
    WriteReg u8 u8
  | ReadReg u8
  | Strobe u8
  | WriteFifo u8 "u8 list"
  | Gpio_config pin pin_mode
  | Gpio_set pin
  | Gpio_clear pin
  | Delay_ms nat

text \<open>Indexing \<^verbatim>\<open>calData\<close> or \<^verbatim>\<open>bindHopData\<close> outside the 47 declared entries.\<close>

datatype error = Out_of_bounds

text \<open>
  The static variables of the file, the static \<^verbatim>\<open>idx\<close> of
  \<^verbatim>\<open>send_bind_packet\<close>, the trace of events, the number of register reads made so
  far, and the callbacks handed to the timer that have not fired yet (delay in ms and
  function, oldest first).
\<close>

record state =
  calData :: "u8 list list"
  bindTxId :: "u8 list"
  bindHopData :: "u8 list"
  channr :: u8
  chanskip :: u8
  rxnum :: u8
  bindcount :: u16
  idx :: u8
  trace :: "event list"
  nreads :: nat
  pending :: "(nat \<times> callback) list"

text \<open>C zero-initialises statics: the state before \<^verbatim>\<open>radio_init\<close>.\<close>

definition init_state :: state where
  "init_state =
     \<lparr> calData = replicate NUM_CHANNELS [0, 0, 0],
       bindTxId = [0, 0],
       bindHopData = replicate NUM_CHANNELS 0,
       channr = 0, chanskip = 0, rxnum = 0, bindcount = 0, idx = 0,
       trace = [], nreads = 0, pending = [] \<rparr>"

definition emit :: "event \<Rightarrow> state \<Rightarrow> state" where
  "emit e s = s\<lparr>trace := trace s @ [e]\<rparr>"

definition cc2500_WriteFifo :: "u8 list \<Rightarrow> u8 \<Rightarrow> state \<Rightarrow> state" where
  "cc2500_WriteFifo dpbuffer len s =
     emit (WriteFifo (CC2500_3F_TXFIFO OR CC2500_WRITE_BURST) (take (unat len) dpbuffer)) s"

definition cc2500_WriteReg :: "u8 \<Rightarrow> u8 \<Rightarrow> state \<Rightarrow> state" where
  "cc2500_WriteReg reg v s = emit (WriteReg (reg OR CC2500_WRITE_SINGLE) v) s"

text \<open>
  \<^verbatim>\<open>cc2500_ReadReg\<close> returns what the chip answers. The answers are an input of the
  model: \<open>chip n\<close> is the byte the chip returns to the \<open>n\<close>-th register read.
\<close>

definition cc2500_ReadReg :: "(nat \<Rightarrow> u8) \<Rightarrow> u8 \<Rightarrow> state \<Rightarrow> u8 \<times> state" where
  "cc2500_ReadReg chip reg s =
     (chip (nreads s), (emit (ReadReg (reg OR CC2500_READ_SINGLE)) s)\<lparr>nreads := nreads s + 1\<rparr>)"

text \<open>Every caller discards the status byte \<^verbatim>\<open>cc2500_Strobe\<close> returns.\<close>

definition cc2500_Strobe :: "u8 \<Rightarrow> state \<Rightarrow> state" where
  "cc2500_Strobe address s = emit (Strobe address) s"

definition delay_ms :: "nat \<Rightarrow> state \<Rightarrow> state" where
  "delay_ms n s = emit (Delay_ms n) s"

text \<open>
  Modelled from the spec: \<^verbatim>\<open>timer_call_after_ms\<close> is declared in timer.h and its body is
  not part of the sources. The specification gives its contract as
  \<^verbatim>\<open>schedule_once(delay_ms, callback)\<close>: the callback fires once, with no arguments,
  after the delay. Here the call adds the callback to the pending ones.
\<close>

definition timer_call_after_ms :: "nat \<Rightarrow> callback \<Rightarrow> state \<Rightarrow> state" where
  "timer_call_after_ms dt_ms cb s = s\<lparr>pending := pending s @ [(dt_ms, cb)]\<rparr>"

definition radio_config :: "(u8 \<times> u8) list" where
  "radio_config =
    [(CC2500_02_IOCFG0, 0x01), (CC2500_17_MCSM1, 0x0C), (CC2500_18_MCSM0, 0x18),
     (CC2500_06_PKTLEN, 0x1E), (CC2500_07_PKTCTRL1, 0x04), (CC2500_08_PKTCTRL0, 0x01),
     (CC2500_3E_PATABLE, 0xFF), (CC2500_0B_FSCTRL1, 0x0A), (CC2500_0C_FSCTRL0, 0x00),
     (CC2500_0D_FREQ2, 0x5C), (CC2500_0E_FREQ1, 0x76), (CC2500_0F_FREQ0, 0x27),
     (CC2500_10_MDMCFG4, 0x7B), (CC2500_11_MDMCFG3, 0x61), (CC2500_12_MDMCFG2, 0x13),
     (CC2500_13_MDMCFG1, 0x23), (CC2500_14_MDMCFG0, 0x7A), (CC2500_15_DEVIATN, 0x51),
     (CC2500_19_FOCCFG, 0x16), (CC2500_1A_BSCFG, 0x6C), (CC2500_1B_AGCCTRL2, 0x03),
     (CC2500_1C_AGCCTRL1, 0x40), (CC2500_1D_AGCCTRL0, 0x91), (CC2500_21_FREND1, 0x56),
     (CC2500_22_FREND0, 0x10), (CC2500_23_FSCAL3, 0xA9), (CC2500_24_FSCAL2, 0x0A),
     (CC2500_25_FSCAL1, 0x00), (CC2500_26_FSCAL0, 0x11), (CC2500_2C_TEST2, 0x88),
     (CC2500_2D_TEST1, 0x31), (CC2500_2E_TEST0, 0x0B), (CC2500_03_FIFOTHR, 0x07),
     (CC2500_09_ADDR, 0x00)]"

definition cc2500_Reset :: "(nat \<Rightarrow> u8) \<Rightarrow> state \<Rightarrow> bool \<times> state" where
  "cc2500_Reset chip s =
     (case cc2500_ReadReg chip CC2500_0E_FREQ1 (delay_ms 1 (cc2500_Strobe CC2500_SRES s)) of
        (v, s') \<Rightarrow> (v = 0xC4, s'))"

definition initialiseData :: "u8 \<Rightarrow> state \<Rightarrow> state" where
  "initialiseData adr s =
     cc2500_WriteReg CC2500_19_FOCCFG 0x16
       (cc2500_WriteReg CC2500_07_PKTCTRL1 0x0D
         (cc2500_WriteReg CC2500_09_ADDR (if adr \<noteq> 0 then 0x03 else bindTxId s ! 0)
           (cc2500_WriteReg CC2500_18_MCSM0 0x8
             (cc2500_WriteReg CC2500_0C_FSCTRL0 0 s))))"

text \<open>
  \<^verbatim>\<open>setChannel\<close> indexes both 47-entry arrays with its argument and checks nothing;
  a read outside the arrays is the error \<open>Out_of_bounds\<close> here.
\<close>

definition setChannel :: "u8 \<Rightarrow> state \<Rightarrow> error + state" where
  "setChannel channel s =
     (if unat channel < NUM_CHANNELS then
        Inr (cc2500_WriteReg CC2500_0A_CHANNR (bindHopData s ! unat channel)
              (cc2500_WriteReg CC2500_25_FSCAL1 (calData s ! unat channel ! 2)
                (cc2500_WriteReg CC2500_24_FSCAL2 (calData s ! unat channel ! 1)
                  (cc2500_WriteReg CC2500_23_FSCAL3 (calData s ! unat channel ! 0)
                    (cc2500_Strobe CC2500_SIDLE s)))))
      else Inl Out_of_bounds)"

subsection \<open>Hopping table generator\<close>

text \<open>
  The part of \<^verbatim>\<open>setup_hopping_table\<close> under the comment "Filter bad tables": the
  three tests on \<^verbatim>\<open>channel_spacing\<close>, in the order of the source. The additions and
  the subtraction are on \<^verbatim>\<open>uint8_t\<close>; the remainder is taken after integer promotion.
\<close>

definition filter_channel_spacing :: "u8 \<Rightarrow> u8" where
  "filter_channel_spacing channel_spacing =
     (let sp1 = (if channel_spacing < 0x02 then channel_spacing + 0x02 else channel_spacing);
          sp2 = (if sp1 > 0xE9 then sp1 - 0xE7 else sp1);
          sp3 = (if unat sp2 mod NUM_CHANNELS = 0 then sp2 + 1 else sp2)
      in sp3)"

text \<open>
  The loop \<^verbatim>\<open>for (i=1; i<NUM_CHANNELS; i++)\<close>. The sum \<^verbatim>\<open>channel+channel_spacing\<close>
  is computed on promoted integers, so it does not wrap before the remainder by 0xEB.
\<close>

function hop_loop :: "nat \<Rightarrow> u8 \<Rightarrow> u8 \<Rightarrow> u8 list \<Rightarrow> u8 list" where
  "hop_loop i channel channel_spacing tbl =
     (if i < NUM_CHANNELS then
        (let channel' = (of_nat ((unat channel + unat channel_spacing) mod 0xEB) :: u8);
             val = (if channel' = 0x00 \<or> channel' = 0x5A \<or> channel' = 0xDC
                    then channel' + 1 else channel')
         in hop_loop (i + 1) channel' channel_spacing (tbl[i := val]))
      else tbl)"
  by pat_completeness auto
termination
  by (relation "measure (\<lambda>(i, _, _, _). NUM_CHANNELS - i)") auto

declare hop_loop.simps [simp del]

definition setup_hopping_table :: "state \<Rightarrow> state" where
  "setup_hopping_table s =
     (let channel = bindTxId s ! 0 AND 0x07;
          channel_spacing = filter_channel_spacing (bindTxId s ! 1)
      in s\<lparr>bindHopData := hop_loop 1 channel channel_spacing ((bindHopData s)[0 := channel])\<rparr>)"

subsection \<open>Bring-up and calibration store\<close>

text \<open>
  The poll loop at the head of \<^verbatim>\<open>radio_init_hw\<close>. It ends when the chip answers 0x80
  for the part number and 0x03 for the version, and never otherwise, so its result is an
  option: \<open>None\<close> when it does not return. The second read is not made when the first
  one already fails (\<^verbatim>\<open>||\<close>).
\<close>

partial_function (option) wait_radio_id :: "(nat \<Rightarrow> u8) \<Rightarrow> state \<Rightarrow> state option" where
  "wait_radio_id chip s =
     (let r1 = cc2500_ReadReg chip (CC2500_30_PARTNUM OR CC2500_READ_BURST) s in
      if fst r1 \<noteq> 0x80 then wait_radio_id chip (delay_ms 200 (snd r1))
      else
        (let r2 = cc2500_ReadReg chip (CC2500_31_VERSION OR CC2500_READ_BURST) (snd r1) in
         if fst r2 \<noteq> 0x03 then wait_radio_id chip (delay_ms 200 (snd r2))
         else Some (snd r2)))"

text \<open>
  The calibration loop \<^verbatim>\<open>for (i=0;i<NUM_CHANNELS;i++)\<close> of \<^verbatim>\<open>radio_init_hw\<close>;
  \<open>set_calData i j v\<close> is the store \<^verbatim>\<open>calData[i][j] = v\<close>.
\<close>

definition set_calData :: "nat \<Rightarrow> nat \<Rightarrow> u8 \<Rightarrow> state \<Rightarrow> state" where
  "set_calData i j v s = s\<lparr>calData := (calData s)[i := (calData s ! i)[j := v]]\<rparr>"

text \<open>The body of the loop, for slot \<open>i\<close>.\<close>

definition cal_step :: "(nat \<Rightarrow> u8) \<Rightarrow> nat \<Rightarrow> state \<Rightarrow> state" where
  "cal_step chip i s =
     (let s1 = cc2500_Strobe CC2500_SIDLE s;
          s2 = cc2500_WriteReg CC2500_0A_CHANNR (bindHopData s1 ! i) s1;
          s3 = cc2500_Strobe CC2500_SCAL s2;
          s4 = delay_ms 1 s3;
          r0 = cc2500_ReadReg chip CC2500_23_FSCAL3 s4;
          s5 = set_calData i 0 (fst r0) (snd r0);
          r1 = cc2500_ReadReg chip CC2500_24_FSCAL2 s5;
          s6 = set_calData i 1 (fst r1) (snd r1);
          r2 = cc2500_ReadReg chip CC2500_25_FSCAL1 s6
      in set_calData i 2 (fst r2) (snd r2))"

function cal_loop :: "(nat \<Rightarrow> u8) \<Rightarrow> nat \<Rightarrow> state \<Rightarrow> state" where
  "cal_loop chip i s =
     (if i < NUM_CHANNELS then cal_loop chip (i + 1) (cal_step chip i s) else s)"
  by pat_completeness auto
termination
  by (relation "measure (\<lambda>(_, i, _). NUM_CHANNELS - i)") auto

declare cal_loop.simps [simp del]

text \<open>
  \<^verbatim>\<open>radio_init_hw\<close>. The result of \<^verbatim>\<open>cc2500_Reset\<close> only selects a diagnostic
  message, and the messages are left out. The identity is the placeholder the source
  assigns.
\<close>

definition radio_init_hw :: "(nat \<Rightarrow> u8) \<Rightarrow> state \<Rightarrow> state option" where
  "radio_init_hw chip s =
     (case wait_radio_id chip s of
        None \<Rightarrow> None
      | Some s1 \<Rightarrow>
          Some
           (let s2 = snd (cc2500_Reset chip s1);
                s3 = foldl (\<lambda>t (reg, v). cc2500_WriteReg reg v t) s2 radio_config;
                s4 = cc2500_Strobe CC2500_SIDLE s3;
                s5 = s4\<lparr>bindTxId := (bindTxId s4)[0 := 15, 1 := 20]\<rparr>;
                s6 = s5\<lparr>chanskip := 1\<rparr>;
                s7 = setup_hopping_table s6;
                s8 = cal_loop chip 0 s7;
                s9 = delay_ms 10 (cc2500_Strobe CC2500_SIDLE (delay_ms 10 s8))
            in initialiseData 1 s9))"

definition radio_init :: "(nat \<Rightarrow> u8) \<Rightarrow> state \<Rightarrow> state option" where
  "radio_init chip s =
     radio_init_hw chip
       (emit (Gpio_config RADIO_INT GPIO_INPUT_FLOAT_IRQ)
         (emit (Gpio_set RADIO_CE)
           (emit (Gpio_config RADIO_CE GPIO_OUTPUT_PUSHPULL)
             (emit (Gpio_clear RADIO_PACTL)
               (emit (Gpio_config RADIO_PACTL GPIO_OUTPUT_PUSHPULL)
                 (emit (Gpio_clear RADIO_PACTL)
                   (emit (Gpio_config RADIO_PACTL GPIO_OUTPUT_PUSHPULL) s)))))))"

subsection \<open>Packet codec\<close>

definition send_packet :: "u8 \<Rightarrow> u8 list \<Rightarrow> state \<Rightarrow> state" where
  "send_packet len packet s =
     cc2500_Strobe CC2500_STX
       (cc2500_WriteFifo packet len
         (cc2500_Strobe CC2500_SFTX (emit (Gpio_set RADIO_PACTL) s)))"

text \<open>
  The three bytes the loop of \<^verbatim>\<open>send_normal_packet\<close> stores for one pair of channel
  values: \<^verbatim>\<open>chan_0 & 0xFF\<close>, \<^verbatim>\<open>((chan_0>>8) & 0x0F)|(chan_1 << 4)\<close> and
  \<^verbatim>\<open>chan_1>>4\<close>, each truncated to a byte by the store.
\<close>

definition pack_pair :: "u16 \<Rightarrow> u16 \<Rightarrow> u8 \<times> u8 \<times> u8" where
  "pack_pair chan_0 chan_1 =
     (ucast (chan_0 AND 0xFF),
      ucast ((drop_bit 8 chan_0 AND 0x0F) OR push_bit 4 chan_1),
      ucast (drop_bit 4 chan_1))"

text \<open>
  The loop \<^verbatim>\<open>for (i = 0, ofs=9; i <8 ; i+=2, ofs += 3)\<close>. \<^verbatim>\<open>channel_value\<close> is
  declared in channels.h; it is a parameter here.
\<close>

function chan_loop :: "(u8 \<Rightarrow> u16) \<Rightarrow> nat \<Rightarrow> nat \<Rightarrow> u8 list \<Rightarrow> u8 list" where
  "chan_loop channel_value i ofs packet =
     (if i < 8 then
        (let chan_0 = channel_value (of_nat i);
             chan_1 = channel_value (of_nat (i + 1))
         in case pack_pair chan_0 chan_1 of
              (b0, b1, b2) \<Rightarrow>
                chan_loop channel_value (i + 2) (ofs + 3)
                  (packet[ofs := b0, ofs + 1 := b1, ofs + 2 := b2]))
      else packet)"
  by pat_completeness auto
termination
  by (relation "measure (\<lambda>(_, i, _, _). 8 - i)") auto

declare chan_loop.simps [simp del]

text \<open>The frame \<^verbatim>\<open>send_normal_packet\<close> builds in its local \<^verbatim>\<open>packet[30]\<close>.\<close>

definition normal_packet :: "(u8 \<Rightarrow> u16) \<Rightarrow> state \<Rightarrow> u8 list" where
  "normal_packet channel_value s =
     (let p0 = replicate 30 (0 :: u8);
          p1 = p0[0 := 29, 1 := bindTxId s ! 0, 2 := bindTxId s ! 1, 3 := 0x02];
          p2 = p1[4 := push_bit 6 (chanskip s) OR channr s, 5 := drop_bit 2 (chanskip s),
                  6 := rxnum s, 7 := 0, 8 := 0];
          p3 = chan_loop channel_value 0 9 p2;
          lcrc = calc_crc (drop 3 p3) 25
      in p3[28 := ucast (drop_bit 8 lcrc), 29 := ucast lcrc])"

definition send_normal_packet :: "(u8 \<Rightarrow> u16) \<Rightarrow> state \<Rightarrow> state" where
  "send_normal_packet channel_value s =
     timer_call_after_ms 6 Start_receive
       (send_packet 30 (normal_packet channel_value s)
         (cc2500_Strobe CC2500_SFRX (cc2500_Strobe CC2500_SIDLE s)))"

text \<open>
  The loop \<^verbatim>\<open>for (i=0; i<5; i++)\<close> of \<^verbatim>\<open>send_bind_packet\<close>; \<^verbatim>\<open>idx + i\<close> is a
  promoted integer.
\<close>

function bind_hop_loop :: "state \<Rightarrow> nat \<Rightarrow> u8 list \<Rightarrow> u8 list" where
  "bind_hop_loop s i packet =
     (if i < 5 then
        bind_hop_loop s (i + 1)
          (if unat (idx s) + i < 47
           then packet[6 + i := bindHopData s ! (unat (idx s) + i)] else packet)
      else packet)"
  by pat_completeness auto
termination
  by (relation "measure (\<lambda>(_, i, _). 5 - i)") auto

declare bind_hop_loop.simps [simp del]

text \<open>The frame \<^verbatim>\<open>send_bind_packet\<close> builds in its local \<^verbatim>\<open>packet[30]\<close>.\<close>

definition bind_packet :: "state \<Rightarrow> u8 list" where
  "bind_packet s =
     (let p0 = replicate 30 (0 :: u8);
          p1 = p0[0 := 29, 1 := 0x03, 2 := 0x01, 3 := bindTxId s ! 0, 4 := bindTxId s ! 1,
                  5 := idx s];
          p2 = bind_hop_loop s 0 p1;
          p3 = p2[11 := 0x02, 12 := 0];
          lcrc = calc_crc (drop 3 p3) 25
      in p3[28 := ucast (drop_bit 8 lcrc), 29 := ucast lcrc])"

definition send_bind_packet :: "state \<Rightarrow> state" where
  "send_bind_packet s =
     (let packet = bind_packet s;
          idx1 = idx s + 5;
          idx2 = (if idx1 \<ge> 50 then idx1 - 50 else idx1);
          s1 = s\<lparr>idx := idx2\<rparr>;
          s2 = send_packet 30 packet
                 (cc2500_WriteReg CC2500_0A_CHANNR 0 (cc2500_Strobe CC2500_SIDLE s1));
          s3 = s2\<lparr>bindcount := bindcount s2 + 1\<rparr>
      in if bindcount s3 > 500
         then timer_call_after_ms 9 Send_normal_packet s3
         else timer_call_after_ms 9 Send_bind_packet s3)"

text \<open>
  The inverse of the packing layout as the specification words it: byte 0 is the low 8 bits
  of \<open>a\<close>; byte 1 has the high 4 bits of \<open>a\<close> in its low nibble and the low 4 bits of
  \<open>b\<close> in its high nibble; byte 2 is the high 8 bits of \<open>b\<close>.
\<close>

definition unpack_pair :: "u8 \<times> u8 \<times> u8 \<Rightarrow> u16 \<times> u16" where
  "unpack_pair bs =
     (case bs of
        (b0, b1, b2) \<Rightarrow>
          (ucast b0 OR push_bit 8 (ucast (b1 AND 0x0F)),
           ucast (drop_bit 4 b1) OR push_bit 4 (ucast b2)))"

subsection \<open>Link sequencer\<close>

definition start_receive :: "state \<Rightarrow> error + state" where
  "start_receive s =
     (let s1 = emit (Gpio_clear RADIO_PACTL) s;
          s2 = s1\<lparr>channr := of_nat ((unat (channr s1) + unat (chanskip s1)) mod 47)\<rparr>;
          s3 = cc2500_Strobe CC2500_SIDLE s2
      in case setChannel (channr s3) s3 of
           Inl e \<Rightarrow> Inl e
         | Inr s4 \<Rightarrow> Inr (timer_call_after_ms 3 Send_normal_packet (cc2500_Strobe CC2500_SRX s4)))"

definition radio_start_send :: "state \<Rightarrow> error + state" where
  "radio_start_send s =
     (case setChannel 0 s of
        Inl e \<Rightarrow> Inl e
      | Inr s1 \<Rightarrow> Inr (timer_call_after_ms 2 Send_bind_packet s1))"

text \<open>Running the function a callback names, with the channel values of that moment.\<close>

fun dispatch :: "callback \<Rightarrow> (u8 \<Rightarrow> u16) \<Rightarrow> state \<Rightarrow> error + state" where
  "dispatch Send_bind_packet channel_value s = Inr (send_bind_packet s)"
| "dispatch Send_normal_packet channel_value s = Inr (send_normal_packet channel_value s)"
| "dispatch Start_receive channel_value s = start_receive s"

text \<open>
  Modelled from the spec: the timer itself (timer.c) is not part of the sources. One step
  of the sequencer is the timer firing a one-shot callback: the oldest pending callback is
  taken off the pending ones and run. With nothing pending nothing happens.
\<close>

definition tick :: "(u8 \<Rightarrow> u16) \<Rightarrow> state \<Rightarrow> error + state" where
  "tick channel_value s =
     (case pending s of
        [] \<Rightarrow> Inr s
      | (dt_ms, cb) # rest \<Rightarrow> dispatch cb channel_value (s\<lparr>pending := rest\<rparr>))"

text \<open>A run of the sequencer: one step for each element of the list of channel values.\<close>

fun run :: "(u8 \<Rightarrow> u16) list \<Rightarrow> state \<Rightarrow> error + state" where
  "run [] s = Inr s"
| "run (cv # cvs) s = (case tick cv s of Inl e \<Rightarrow> Inl e | Inr s' \<Rightarrow> run cvs s')"

text \<open>
  Modelled from the spec: the caller of the driver is not part of the sources. Power-up is
  bring-up with calibration, then the start of bind advertising: \<^verbatim>\<open>radio_init\<close> on
  the zeroed statics, then \<^verbatim>\<open>radio_start_send\<close>. The result is \<open>None\<close> when the
  bring-up poll never ends.
\<close>

definition boot :: "(nat \<Rightarrow> u8) \<Rightarrow> (error + state) option" where
  "boot chip = map_option radio_start_send (radio_init chip init_state)"

text \<open>
  The hop slots of successive transmit/receive cycles. A cycle is two steps of the
  sequencer, and the slot listed for it is the hop index after the second step.
\<close>

fun hop_cycles :: "(u8 \<Rightarrow> u16) list \<Rightarrow> state \<Rightarrow> u8 list" where
  "hop_cycles [] s = []"
| "hop_cycles (cv # cvs) s =
     (case tick cv s of
        Inl e \<Rightarrow> []
      | Inr s1 \<Rightarrow>
          (case tick cv s1 of
             Inl e \<Rightarrow> []
           | Inr s2 \<Rightarrow> channr s2 # hop_cycles cvs s2))"

section \<open>Properties\<close>

subsection \<open>The CRC table\<close>

lemma crc16_reflected_bits_8:
  "crc16_reflected_bits 8 c =
     crc16_reflected_shift (crc16_reflected_shift (crc16_reflected_shift
      (crc16_reflected_shift (crc16_reflected_shift (crc16_reflected_shift
        (crc16_reflected_shift (crc16_reflected_shift c)))))))"
  by (simp add: eval_nat_numeral)

lemma upt_256_head: "[0..<256] = 0 # 1 # [2..<256]"
  by (simp add: upt_conv_Cons)

text \<open>
  The comparison of all 256 entries: the indices are enumerated first, then each index is
  run through the eight shift steps.
\<close>

lemma CRCTable_eq_reference:
  "CRCTable = map (\<lambda>n. crc16_reflected_byte (of_nat n)) [0..<256]"
  unfolding upt_256_head CRCTable_def
  apply simp
  apply (simp add: crc16_reflected_byte_def crc16_reflected_bits_8 crc16_reflected_shift_def)
  done

lemma length_CRCTable: "length CRCTable = 256"
  by (simp add: CRCTable_eq_reference)

lemma unat_u8_less: "unat (i :: u8) < 256"
  using unsigned_less [of i, where 'a = nat] by simp

text \<open>
  C6: the table has 256 entries, and for every byte \<open>i\<close> the entry \<open>CRCTable[i]\<close> is the
  value obtained by running \<open>i\<close> through the bitwise reflected-polynomial (0x8408) CRC-16
  from the initial value 0.
\<close>

theorem CRCTable_is_reflected_ccitt:
  "length CRCTable = 256 \<and> CRCTable ! unat i = crc16_reflected_byte i"
proof -
  have "CRCTable ! unat i = crc16_reflected_byte (of_nat (unat i))"
    using unat_u8_less [of i] by (simp add: CRCTable_eq_reference del: upt_Suc)
  then show ?thesis
    by (simp add: length_CRCTable)
qed

subsection \<open>Channel packing\<close>

lemma masks_u16: "(0xFF :: u16) = mask 8" "(0x0F :: u16) = mask 4" "(0xFFF :: u16) = mask 12"
  by (simp_all add: mask_eq_exp_minus_1)

lemma mask_u8: "(0x0F :: u8) = mask 4"
  by (simp add: mask_eq_exp_minus_1)

lemma unpack_pack_pair: "unpack_pair (pack_pair a b) = (a AND 0xFFF, b AND 0xFFF)"
  apply (simp only: pack_pair_def unpack_pair_def masks_u16 mask_u8 prod.case prod.inject)
  apply (rule conjI)
   apply (rule bit_word_eqI; auto simp add: bit_simps)
  apply (rule bit_word_eqI; auto simp add: bit_simps)
  done

lemma pack_pair_low12: "pack_pair a b = pack_pair (a AND 0xFFF) (b AND 0xFFF)"
  apply (simp only: pack_pair_def masks_u16 mask_u8 prod.inject)
  apply (intro conjI)
    apply (rule bit_word_eqI; auto simp add: bit_simps)
   apply (rule bit_word_eqI; auto simp add: bit_simps)
  apply (rule bit_word_eqI; auto simp add: bit_simps)
  done

lemma mod_4096_mask: "(a :: u16) mod 0x1000 = a AND 0xFFF"
  using word_mod_2p_is_mask [of 12 a] by (simp add: mask_eq_exp_minus_1)

lemma less_4096_mask: "(a :: u16) < 0x1000 \<Longrightarrow> a AND 0xFFF = a"
  using less_mask_eq [of a 12] by (simp add: mask_eq_exp_minus_1)

lemma chan_loop_length: "length (chan_loop cv i ofs p) = length p"
  by (induction cv i ofs p rule: chan_loop.induct)
     (subst chan_loop.simps, simp add: Let_def split: prod.splits)

lemma take_3_drop_9:
  assumes "length xs = 30"
  shows "take 3 (drop 9 xs) = [xs ! 9, xs ! 10, xs ! 11]"
proof -
  have "drop 9 xs = xs ! 9 # drop 10 xs"
    using Cons_nth_drop_Suc [of 9 xs] assms by simp
  moreover have "drop 10 xs = xs ! 10 # drop 11 xs"
    using Cons_nth_drop_Suc [of 10 xs] assms by simp
  moreover have "drop 11 xs = xs ! 11 # drop 12 xs"
    using Cons_nth_drop_Suc [of 11 xs] assms by simp
  ultimately show ?thesis
    by (simp add: numeral_3_eq_3)
qed

lemma chan_loop_first_pair:
  assumes "length p = 30"
  shows "take 3 (drop 9 (chan_loop cv 0 9 p)) =
           (case pack_pair (cv 0) (cv 1) of (b0, b1, b2) \<Rightarrow> [b0, b1, b2])"
proof -
  obtain b0 b1 b2 where b: "pack_pair (cv 0) (cv 1) = (b0, b1, b2)"
    by (cases "pack_pair (cv 0) (cv 1)") auto
  have nth: "chan_loop cv i ofs q ! k = q ! k" if "k < ofs" for i ofs q k
    using that
    by (induction cv i ofs q rule: chan_loop.induct)
       (subst chan_loop.simps, auto simp: Let_def split: prod.splits)
  have "chan_loop cv 0 9 p = chan_loop cv 2 12 (p[9 := b0, 10 := b1, 11 := b2])"
    by (subst chan_loop.simps) (simp add: b numeral_2_eq_2)
  then have "chan_loop cv 0 9 p ! 9 = b0" "chan_loop cv 0 9 p ! 10 = b1" "chan_loop cv 0 9 p ! 11 = b2"
    using assms by (simp_all add: nth)
  moreover have "length (chan_loop cv 0 9 p) = 30"
    using assms by (simp add: chan_loop_length)
  ultimately show ?thesis
    by (simp add: b take_3_drop_9)
qed

lemma normal_packet_first_pair:
  "take 3 (drop 9 (normal_packet cv s)) =
     (case pack_pair (cv 0) (cv 1) of (b0, b1, b2) \<Rightarrow> [b0, b1, b2])"
proof -
  have "take 3 (drop 9 (normal_packet cv s)) =
        take 3 (drop 9 (chan_loop cv 0 9
          ((replicate 30 0)[0 := 29, 1 := bindTxId s ! 0, 2 := bindTxId s ! 1, 3 := 0x02,
             4 := push_bit 6 (chanskip s) OR channr s, 5 := drop_bit 2 (chanskip s),
             6 := rxnum s, 7 := 0, 8 := 0])))"
    by (simp add: normal_packet_def Let_def drop_update_swap take_update_cancel chan_loop_length)
  then show ?thesis
    by (simp add: chan_loop_first_pair)
qed

text \<open>
  C3, as the specification states it, does not hold: for \<open>a = 0xABC\<close>, \<open>b = 0x123\<close> the
  packer does not produce \<open>{0xBC, 0xA1, 0x12}\<close>.
\<close>

theorem pack_pair_ABC_123_not_A1: "pack_pair 0xABC 0x123 \<noteq> (0xBC, 0xA1, 0x12)"
  by (simp add: pack_pair_def)

text \<open>
  C3, amended: for \<open>a = 0xABC\<close>, \<open>b = 0x123\<close> the packer produces \<open>{0xBC, 0x3A, 0x12}\<close>,
  and these are bytes 9 to 11 of the normal frame when the first two channel values are
  \<open>a\<close> and \<open>b\<close>. The middle byte has the high nibble of \<open>a\<close> (0xA) in its low nibble
  and the low nibble of \<open>b\<close> (0x3) in its high nibble.
\<close>

theorem pack_pair_ABC_123:
  "pack_pair 0xABC 0x123 = (0xBC, 0x3A, 0x12) \<and>
   take 3 (drop 9 (normal_packet (cv(0 := 0xABC, 1 := 0x123)) s)) = [0xBC, 0x3A, 0x12]"
  by (simp add: normal_packet_first_pair) (simp add: pack_pair_def)

text \<open>
  C4: for 12-bit \<open>a\<close> and \<open>b\<close>, unpacking the three packed bytes with the inverse of the
  documented layout gives \<open>a\<close> and \<open>b\<close> back; and for any 16-bit \<open>a\<close> and \<open>b\<close> the
  packed bytes are those of \<open>a mod 4096\<close> and \<open>b mod 4096\<close>.
\<close>

theorem pack_pair_roundtrip:
  "(a < 0x1000 \<and> b < 0x1000 \<longrightarrow> unpack_pair (pack_pair a b) = (a, b)) \<and>
   pack_pair a b = pack_pair (a mod 0x1000) (b mod 0x1000)"
proof
  show "a < 0x1000 \<and> b < 0x1000 \<longrightarrow> unpack_pair (pack_pair a b) = (a, b)"
    by (simp add: unpack_pack_pair less_4096_mask)
  show "pack_pair a b = pack_pair (a mod 0x1000) (b mod 0x1000)"
    by (simp only: mod_4096_mask) (rule pack_pair_low12)
qed

theorem pack_pair_roundtrip_witness:
  "(0xABC :: u16) < 0x1000 \<and> (0x123 :: u16) < 0x1000 \<and>
   unpack_pair (pack_pair 0xABC 0x123) = (0xABC, 0x123)"
proof -
  have h: "(0xABC :: u16) < 0x1000 \<and> (0x123 :: u16) < 0x1000"
    by simp
  from pack_pair_roundtrip [of "0xABC" "0x123"] h
  have "unpack_pair (pack_pair 0xABC 0x123) = (0xABC, 0x123)"
    by blast
  with h show ?thesis
    by blast
qed

subsection \<open>Spacing normalisation\<close>

text \<open>
  C5: for every spacing byte, the spacing the generator uses after the three tests lies in
  \<open>[2, 0xE9]\<close> and is not a multiple of 47.
\<close>

theorem filter_channel_spacing_range:
  "2 \<le> filter_channel_spacing sp \<and> filter_channel_spacing sp \<le> 0xE9 \<and>
   unat (filter_channel_spacing sp) mod 47 \<noteq> 0"
proof -
  have "unat sp < 256"
    by (rule unat_u8_less)
  then show ?thesis
    unfolding filter_channel_spacing_def Let_def
    apply (auto simp: word_less_nat_alt word_le_nat_alt unat_word_ariths unat_sub)
        apply presburger+
    done
qed

subsection \<open>The hopping table\<close>

lemma hop_loop_length: "length (hop_loop i c sp tbl) = length tbl"
  by (induction i c sp tbl rule: hop_loop.induct) (subst hop_loop.simps, simp add: Let_def)

lemma hop_loop_nth_old: "k < i \<Longrightarrow> hop_loop i c sp tbl ! k = tbl ! k"
  by (induction i c sp tbl rule: hop_loop.induct) (subst hop_loop.simps, simp add: Let_def)

lemma unat_mod_EB: "unat (of_nat (m mod 0xEB) :: u8) = m mod 0xEB"
proof -
  have "m mod 0xEB < (256 :: nat)"
    using mod_less_divisor [of "0xEB" m] by simp
  then show ?thesis
    by (simp add: unat_of_nat)
qed

lemma stored_val_ok:
  fixes c :: u8
  assumes "c < 0xEB"
  shows "(if c = 0x00 \<or> c = 0x5A \<or> c = 0xDC then c + 1 else c) < 0xEB \<and>
         (if c = 0x00 \<or> c = 0x5A \<or> c = 0xDC then c + 1 else c) \<noteq> 0x00 \<and>
         (if c = 0x00 \<or> c = 0x5A \<or> c = 0xDC then c + 1 else c) \<noteq> 0x5A \<and>
         (if c = 0x00 \<or> c = 0x5A \<or> c = 0xDC then c + 1 else c) \<noteq> 0xDC"
  using assms by auto

text \<open>Every slot the loop writes holds a channel below 0xEB that is none of the three.\<close>

lemma hop_loop_nth_new:
  "i \<le> k \<Longrightarrow> k < NUM_CHANNELS \<Longrightarrow> length tbl = NUM_CHANNELS \<Longrightarrow>
   hop_loop i c sp tbl ! k < 0xEB \<and> hop_loop i c sp tbl ! k \<noteq> 0x00 \<and>
   hop_loop i c sp tbl ! k \<noteq> 0x5A \<and> hop_loop i c sp tbl ! k \<noteq> 0xDC"
proof (induction i c sp tbl rule: hop_loop.induct)
  case (1 i channel channel_spacing tbl)
  define c' :: u8 where "c' = of_nat ((unat channel + unat channel_spacing) mod 0xEB)"
  define v where "v = (if c' = 0x00 \<or> c' = 0x5A \<or> c' = 0xDC then c' + 1 else c')"
  have i: "i < NUM_CHANNELS"
    using 1 by simp
  have unfold: "hop_loop i channel channel_spacing tbl =
                hop_loop (i + 1) c' channel_spacing (tbl[i := v])"
    using i by (subst hop_loop.simps) (simp add: Let_def c'_def v_def)
  show ?case
  proof (cases "k = i")
    case True
    have at_k: "hop_loop i channel channel_spacing tbl ! k = v"
      using True 1(4) i by (simp add: unfold hop_loop_nth_old)
    have "c' < 0xEB"
      by (simp add: word_less_nat_alt c'_def unat_mod_EB)
    from stored_val_ok [OF this]
    have "v < 0xEB \<and> v \<noteq> 0x00 \<and> v \<noteq> 0x5A \<and> v \<noteq> 0xDC"
      unfolding v_def .
    then show ?thesis
      by (simp add: at_k)
  next
    case False
    then have "i + 1 \<le> k"
      using 1(2) by simp
    then show ?thesis
      using "1.IH" [OF i c'_def v_def] 1(3,4) by (simp add: unfold)
  qed
qed

lemma and_7_less: "(x :: u8) AND 0x07 < 8"
proof -
  have "x AND mask 3 < 2 ^ 3"
    by (rule and_mask_less') simp
  then show ?thesis
    by (simp add: mask_eq_exp_minus_1)
qed

text \<open>
  C1, as stated, does not hold: slot 0 is \<open>id0 & 0x07\<close> as it is, so an identity whose
  first byte has its low three bits clear (here 0x08, 0x14) gives a table whose entry 0 is
  0x00.
\<close>

theorem hopping_table_slot0_zero:
  "bindHopData (setup_hopping_table (init_state\<lparr>bindTxId := [0x08, 0x14]\<rparr>)) ! 0 = 0x00"
  by (simp add: setup_hopping_table_def Let_def hop_loop_nth_old init_state_def)

text \<open>
  C1, amended: for every identity \<open>(id0, id1)\<close> the table has 47 entries, every entry is
  below 0xEB and is neither 0x5A nor 0xDC, no entry in slots 1 to 46 is 0x00, and slot 0 is
  \<open>id0 & 0x07\<close>.
\<close>

theorem setup_hopping_table_entries:
  assumes "length (bindHopData s) = NUM_CHANNELS" and "bindTxId s = [id0, id1]"
  shows "length (bindHopData (setup_hopping_table s)) = NUM_CHANNELS \<and>
         bindHopData (setup_hopping_table s) ! 0 = id0 AND 0x07 \<and>
         (\<forall>k < NUM_CHANNELS.
            bindHopData (setup_hopping_table s) ! k < 0xEB \<and>
            bindHopData (setup_hopping_table s) ! k \<noteq> 0x5A \<and>
            bindHopData (setup_hopping_table s) ! k \<noteq> 0xDC \<and>
            (1 \<le> k \<longrightarrow> bindHopData (setup_hopping_table s) ! k \<noteq> 0x00))"
proof -
  define tbl0 where "tbl0 = (bindHopData s)[0 := id0 AND 0x07]"
  define sp where "sp = filter_channel_spacing id1"
  have tbl: "bindHopData (setup_hopping_table s) = hop_loop 1 (id0 AND 0x07) sp tbl0"
    using assms(2) by (simp add: setup_hopping_table_def Let_def tbl0_def sp_def)
  have len0: "length tbl0 = NUM_CHANNELS"
    using assms(1) by (simp add: tbl0_def)
  have slot0: "hop_loop 1 (id0 AND 0x07) sp tbl0 ! 0 = id0 AND 0x07"
    using len0 by (simp add: hop_loop_nth_old tbl0_def)
  have small: "id0 AND 0x07 < 0xEB \<and> id0 AND 0x07 \<noteq> 0x5A \<and> id0 AND 0x07 \<noteq> 0xDC"
    using and_7_less [of id0] by (auto simp: word_less_nat_alt)
  have "hop_loop 1 (id0 AND 0x07) sp tbl0 ! k < 0xEB \<and>
        hop_loop 1 (id0 AND 0x07) sp tbl0 ! k \<noteq> 0x5A \<and>
        hop_loop 1 (id0 AND 0x07) sp tbl0 ! k \<noteq> 0xDC \<and>
        (1 \<le> k \<longrightarrow> hop_loop 1 (id0 AND 0x07) sp tbl0 ! k \<noteq> 0x00)"
    if "k < NUM_CHANNELS" for k
  proof (cases "k = 0")
    case True
    then show ?thesis
      using slot0 small by simp
  next
    case False
    then have "1 \<le> k"
      by simp
    from hop_loop_nth_new [OF this that len0, of "id0 AND 0x07" sp]
    show ?thesis
      by simp
  qed
  then show ?thesis
    using len0 slot0 by (simp add: tbl hop_loop_length)
qed

theorem setup_hopping_table_entries_witness:
  "length (bindHopData (init_state\<lparr>bindTxId := [15, 20]\<rparr>)) = NUM_CHANNELS \<and>
   bindTxId (init_state\<lparr>bindTxId := [15, 20]\<rparr>) = [15, 20] \<and>
   bindHopData (setup_hopping_table (init_state\<lparr>bindTxId := [15, 20]\<rparr>)) ! 0 = 7 \<and>
   (1 :: nat) < NUM_CHANNELS \<and>
   bindHopData (setup_hopping_table (init_state\<lparr>bindTxId := [15, 20]\<rparr>)) ! 1 \<noteq> 0"
proof -
  have h1: "length (bindHopData (init_state\<lparr>bindTxId := [15, 20]\<rparr>)) = NUM_CHANNELS"
    by (simp add: init_state_def)
  have h2: "bindTxId (init_state\<lparr>bindTxId := [15, 20]\<rparr>) = [15, 20]"
    by simp
  from setup_hopping_table_entries [OF h1 h2] h1 h2
  show ?thesis
    by simp
qed

subsection \<open>Frames\<close>

lemma bind_hop_loop_length: "length (bind_hop_loop s i p) = length p"
  by (induction s i p rule: bind_hop_loop.induct) (subst bind_hop_loop.simps, simp)

lemma length_normal_packet: "length (normal_packet cv s) = 30"
  by (simp add: normal_packet_def Let_def chan_loop_length)

lemma length_bind_packet: "length (bind_packet s) = 30"
  by (simp add: bind_packet_def Let_def bind_hop_loop_length)

lemma crc_trailer:
  assumes "length p = 30"
  defines "f \<equiv> p[28 := ucast (drop_bit 8 (calc_crc (drop 3 p) 25)), 29 := ucast (calc_crc (drop 3 p) 25)]"
  shows "f ! 28 = ucast (drop_bit 8 (calc_crc (take 25 (drop 3 f)) 25)) \<and>
         f ! 29 = ucast (calc_crc (take 25 (drop 3 f)) 25)"
proof -
  have "take 25 (drop 3 f) = take 25 (drop 3 p)"
    using assms(1) unfolding f_def by (simp add: drop_update_swap take_update_cancel)
  moreover have "calc_crc (take 25 (drop 3 p)) 25 = calc_crc (drop 3 p) 25"
    by (simp add: calc_crc_def)
  ultimately show ?thesis
    using assms(1) unfolding f_def by simp
qed

text \<open>
  C2: the frame \<^verbatim>\<open>send_normal_packet\<close> writes to the TX FIFO and the frame
  \<^verbatim>\<open>send_bind_packet\<close> writes are each 30 bytes long, all 30 are written, and bytes
  28 and 29 are the high and the low byte of \<^verbatim>\<open>calc_crc\<close> over the 25 bytes 3 to 27.
\<close>

theorem emitted_frames_length_and_crc:
  "trace (send_normal_packet cv s) =
     trace s @ [Strobe CC2500_SIDLE, Strobe CC2500_SFRX, Gpio_set RADIO_PACTL,
                Strobe CC2500_SFTX, WriteFifo 0x7F (normal_packet cv s), Strobe CC2500_STX] \<and>
   length (normal_packet cv s) = 30 \<and>
   normal_packet cv s ! 28 = ucast (drop_bit 8 (calc_crc (take 25 (drop 3 (normal_packet cv s))) 25)) \<and>
   normal_packet cv s ! 29 = ucast (calc_crc (take 25 (drop 3 (normal_packet cv s))) 25) \<and>
   trace (send_bind_packet s) =
     trace s @ [Strobe CC2500_SIDLE, WriteReg CC2500_0A_CHANNR 0, Gpio_set RADIO_PACTL,
                Strobe CC2500_SFTX, WriteFifo 0x7F (bind_packet s), Strobe CC2500_STX] \<and>
   length (bind_packet s) = 30 \<and>
   bind_packet s ! 28 = ucast (drop_bit 8 (calc_crc (take 25 (drop 3 (bind_packet s))) 25)) \<and>
   bind_packet s ! 29 = ucast (calc_crc (take 25 (drop 3 (bind_packet s))) 25)"
proof -
  have n: "normal_packet cv s ! 28 = ucast (drop_bit 8 (calc_crc (take 25 (drop 3 (normal_packet cv s))) 25)) \<and>
   normal_packet cv s ! 29 = ucast (calc_crc (take 25 (drop 3 (normal_packet cv s))) 25)"
    unfolding normal_packet_def Let_def
    by (rule crc_trailer) (simp add: chan_loop_length)
  have b: "bind_packet s ! 28 = ucast (drop_bit 8 (calc_crc (take 25 (drop 3 (bind_packet s))) 25)) \<and>
   bind_packet s ! 29 = ucast (calc_crc (take 25 (drop 3 (bind_packet s))) 25)"
    unfolding bind_packet_def Let_def
    by (rule crc_trailer) (simp add: bind_hop_loop_length)
  have tn: "trace (send_normal_packet cv s) =
     trace s @ [Strobe CC2500_SIDLE, Strobe CC2500_SFRX, Gpio_set RADIO_PACTL,
                Strobe CC2500_SFTX, WriteFifo 0x7F (normal_packet cv s), Strobe CC2500_STX]"
    by (simp add: send_normal_packet_def send_packet_def cc2500_Strobe_def cc2500_WriteFifo_def
        emit_def timer_call_after_ms_def length_normal_packet)
  have tb: "trace (send_bind_packet s) =
     trace s @ [Strobe CC2500_SIDLE, WriteReg CC2500_0A_CHANNR 0, Gpio_set RADIO_PACTL,
                Strobe CC2500_SFTX, WriteFifo 0x7F (bind_packet s), Strobe CC2500_STX]"
    by (simp add: send_bind_packet_def Let_def send_packet_def cc2500_Strobe_def cc2500_WriteFifo_def
        cc2500_WriteReg_def emit_def timer_call_after_ms_def length_bind_packet)
  show ?thesis
    using n b tn tb by (simp add: length_normal_packet length_bind_packet)
qed

subsection \<open>The bind cursor\<close>

lemma bind_hop_loop_nth_low: "k < 6 \<Longrightarrow> bind_hop_loop s i p ! k = p ! k"
  by (induction s i p rule: bind_hop_loop.induct) (subst bind_hop_loop.simps, simp)

lemma bind_hop_loop_nth_skip:
  "j < i \<Longrightarrow> bind_hop_loop s i p ! (6 + j) = p ! (6 + j)"
  by (induction s i p rule: bind_hop_loop.induct) (subst bind_hop_loop.simps, simp)

lemma bind_hop_loop_nth:
  "6 + j < length p \<Longrightarrow>
   bind_hop_loop s i p ! (6 + j) =
     (if i \<le> j \<and> j < 5 \<and> unat (idx s) + j < 47
      then bindHopData s ! (unat (idx s) + j) else p ! (6 + j))"
proof (induction s i p rule: bind_hop_loop.induct)
  case (1 s i packet)
  show ?case
  proof (cases "i < 5")
    case True
    note i = this
    define packet' where "packet' =
      (if unat (idx s) + i < 47
       then packet[6 + i := bindHopData s ! (unat (idx s) + i)] else packet)"
    have unfold: "bind_hop_loop s i packet = bind_hop_loop s (i + 1) packet'"
      using i by (subst bind_hop_loop.simps) (simp add: packet'_def)
    have len: "6 + j < length packet'"
      using 1(2) by (simp add: packet'_def)
    show ?thesis
    proof (cases "j = i")
      case True
      have "bind_hop_loop s (i + 1) packet' ! (6 + j) = packet' ! (6 + j)"
        using True by (simp add: bind_hop_loop_nth_skip)
      then show ?thesis
        using True i 1(2) by (simp add: unfold packet'_def)
    next
      case False
      from "1.IH" [OF i, folded packet'_def, OF len]
      show ?thesis
        using False by (auto simp: unfold packet'_def)
    qed
  next
    case False
    then show ?thesis
      by (subst bind_hop_loop.simps) auto
  qed
qed

lemma bind_packet_cursor: "bind_packet s ! 5 = idx s"
  by (simp add: bind_packet_def Let_def bind_hop_loop_nth_low bind_hop_loop_length)

lemma bind_packet_hops:
  assumes "j < 5"
  shows "bind_packet s ! (6 + j) =
           (if unat (idx s) + j < 47 then bindHopData s ! (unat (idx s) + j) else 0)"
proof -
  have "bind_packet s ! (6 + j) = bind_hop_loop s 0
          ((replicate 30 0)[0 := 29, 1 := 0x03, 2 := 0x01, 3 := bindTxId s ! 0,
             4 := bindTxId s ! 1, 5 := idx s]) ! (6 + j)"
    using assms by (simp add: bind_packet_def Let_def bind_hop_loop_length)
  then show ?thesis
    using assms by (simp add: bind_hop_loop_nth)
qed

lemma idx_send_bind_packet:
  "idx (send_bind_packet s) = (if idx s + 5 \<ge> 50 then idx s + 5 - 50 else idx s + 5)"
  by (simp add: send_bind_packet_def Let_def send_packet_def cc2500_Strobe_def
      cc2500_WriteFifo_def cc2500_WriteReg_def emit_def timer_call_after_ms_def)

lemma unat_idx_step:
  assumes "unat (idx s) < 50"
  shows "unat (idx (send_bind_packet s)) = (unat (idx s) + 5) mod 50"
proof -
  have a: "unat (idx s + 5) = unat (idx s) + 5"
    using assms by (simp add: unat_word_ariths)
  show ?thesis
  proof (cases "idx s + 5 \<ge> 50")
    case True
    then have ge: "50 \<le> unat (idx s) + 5"
      using a by (simp add: word_le_nat_alt)
    then have "45 \<le> idx s"
      by (simp add: word_le_nat_alt)
    then have "unat (idx s - 45) = unat (idx s) - 45"
      by (simp add: unat_sub)
    then show ?thesis
      using True ge assms by (simp add: idx_send_bind_packet mod_if)
  next
    case False
    then have "unat (idx s) + 5 < 50"
      using a by (simp add: word_le_nat_alt)
    then show ?thesis
      using False a by (simp add: idx_send_bind_packet)
  qed
qed

lemma unat_idx_funpow:
  "idx s = 0 \<Longrightarrow> unat (idx ((send_bind_packet ^^ n) s)) = 5 * n mod 50"
proof (induction n)
  case 0
  then show ?case by simp
next
  case (Suc n)
  have "unat (idx ((send_bind_packet ^^ n) s)) < 50"
    using Suc by simp
  from unat_idx_step [OF this] Suc show ?case
    by (simp add: mod_simps add.commute)
qed

text \<open>
  C7: from cursor 0, the cursor after \<open>n\<close> bind-frame builds is \<open>5 n mod 50\<close>: each build
  adds 5 and goes back to 0 exactly when the sum reaches 50, so twelve successive frames
  carry the cursors 0, 5, ..., 45, 0, 5. In any bind frame, byte 5 is the cursor, and of
  the five bytes that follow, byte \<open>6 + i\<close> is table entry \<open>cursor + i\<close> when that index
  is below 47 and zero otherwise.
\<close>

theorem bind_cursor_wraps_and_zero_fill:
  assumes "idx s = 0"
  shows "unat (idx ((send_bind_packet ^^ n) s)) = 5 * n mod 50 \<and>
         idx (send_bind_packet ((send_bind_packet ^^ n) s)) =
           (if 50 \<le> unat (idx ((send_bind_packet ^^ n) s)) + 5 then 0
            else idx ((send_bind_packet ^^ n) s) + 5) \<and>
         map (\<lambda>k. idx ((send_bind_packet ^^ k) s)) [0, 1, 2, 3, 4, 5, 6, 7, 8, 9, 10, 11] =
           [0, 5, 10, 15, 20, 25, 30, 35, 40, 45, 0, 5] \<and>
         bind_packet t ! 5 = idx t \<and>
         (\<forall>i < 5. bind_packet t ! (6 + i) =
                    (if unat (idx t) + i < 47 then bindHopData t ! (unat (idx t) + i) else 0))"
proof -
  have u: "unat (idx ((send_bind_packet ^^ k) s)) = 5 * k mod 50" for k
    by (rule unat_idx_funpow [OF assms])
  have seq: "idx ((send_bind_packet ^^ k) s) = of_nat (5 * k mod 50)" for k
    using u [of k]
    by (metis unsigned_of_nat word_of_nat_eq_iff take_bit_nat_eq_self_iff of_nat_unat ucast_id)
  define q where "q = n mod 10"
  define m where "m = 5 * n mod 50"
  have q: "q < 10"
    by (simp add: q_def)
  have mq: "m = 5 * q"
    using mult_mod_right [of 5 n 10] by (simp add: m_def q_def)
  have un: "unat (idx ((send_bind_packet ^^ n) s)) = m"
    using u [of n] by (simp add: m_def)
  have e1: "idx (send_bind_packet ((send_bind_packet ^^ n) s)) = of_nat ((m + 5) mod 50)"
    using seq [of "Suc n"] by (simp add: m_def mod_simps add.commute)
  have e2: "idx ((send_bind_packet ^^ n) s) + 5 = of_nat (m + 5)"
    by (simp add: seq m_def)
  have e3: "(m + 5) mod 50 = (if 50 \<le> m + 5 then 0 else m + 5)"
  proof (cases "q = 9")
    case True
    then show ?thesis
      by (simp add: mq)
  next
    case False
    then have "m + 5 < 50"
      using q by (simp add: mq)
    then show ?thesis
      by simp
  qed
  have wrap: "idx (send_bind_packet ((send_bind_packet ^^ n) s)) =
      (if 50 \<le> unat (idx ((send_bind_packet ^^ n) s)) + 5 then 0
       else idx ((send_bind_packet ^^ n) s) + 5)"
    unfolding un e1 e2 e3 by simp
  have first12: "map (\<lambda>k. idx ((send_bind_packet ^^ k) s)) [0, 1, 2, 3, 4, 5, 6, 7, 8, 9, 10, 11] =
           [0, 5, 10, 15, 20, 25, 30, 35, 40, 45, 0, 5]"
    by (simp add: seq del: funpow.simps)
  show ?thesis
    using u [of n] wrap first12 by (simp add: bind_packet_cursor bind_packet_hops del: funpow.simps)
qed

theorem bind_cursor_wraps_and_zero_fill_witness:
  "idx init_state = 0 \<and> (2 :: nat) < 5 \<and>
   unat (idx ((send_bind_packet ^^ 9) init_state)) = 45 \<and>
   idx (send_bind_packet ((send_bind_packet ^^ 9) init_state)) = 0 \<and>
   bind_packet ((send_bind_packet ^^ 9) init_state) ! 8 = 0"
proof -
  have h: "idx init_state = 0"
    by (simp add: init_state_def)
  from bind_cursor_wraps_and_zero_fill [OF h, of 9 "(send_bind_packet ^^ 9) init_state"]
  have a: "unat (idx ((send_bind_packet ^^ 9) init_state)) = 45"
    and b: "idx (send_bind_packet ((send_bind_packet ^^ 9) init_state)) =
           (if 50 \<le> unat (idx ((send_bind_packet ^^ 9) init_state)) + 5 then 0
            else idx ((send_bind_packet ^^ 9) init_state) + 5)"
    and c: "\<forall>i < 5. bind_packet ((send_bind_packet ^^ 9) init_state) ! (6 + i) =
                    (if unat (idx ((send_bind_packet ^^ 9) init_state)) + i < 47
                     then bindHopData ((send_bind_packet ^^ 9) init_state) !
                            (unat (idx ((send_bind_packet ^^ 9) init_state)) + i)
                     else 0)"
    by simp_all
  have "bind_packet ((send_bind_packet ^^ 9) init_state) ! 8 = 0"
    using c [rule_format, of 2] a by simp
  then show ?thesis
    using h a b by simp
qed

subsection \<open>The sequencer\<close>

lemmas io_defs = emit_def cc2500_Strobe_def cc2500_WriteReg_def cc2500_WriteFifo_def
  delay_ms_def send_packet_def timer_call_after_ms_def

lemma send_bind_packet_fields:
  "chanskip (send_bind_packet s) = chanskip s"
  "channr (send_bind_packet s) = channr s"
  "bindHopData (send_bind_packet s) = bindHopData s"
  "calData (send_bind_packet s) = calData s"
  "bindTxId (send_bind_packet s) = bindTxId s"
  "bindcount (send_bind_packet s) = bindcount s + 1"
  "pending (send_bind_packet s) =
     pending s @ [(9, if bindcount s + 1 > 500 then Send_normal_packet else Send_bind_packet)]"
  by (simp_all add: send_bind_packet_def Let_def io_defs)

lemma send_normal_packet_fields:
  "chanskip (send_normal_packet cv s) = chanskip s"
  "channr (send_normal_packet cv s) = channr s"
  "bindHopData (send_normal_packet cv s) = bindHopData s"
  "calData (send_normal_packet cv s) = calData s"
  "bindTxId (send_normal_packet cv s) = bindTxId s"
  "bindcount (send_normal_packet cv s) = bindcount s"
  "pending (send_normal_packet cv s) = pending s @ [(6, Start_receive)]"
  by (simp_all add: send_normal_packet_def io_defs)

lemma unat_mod_47: "unat (of_nat (m mod 47) :: u8) = m mod 47"
proof -
  have "m mod 47 < (256 :: nat)"
    using mod_less_divisor [of 47 m] by simp
  then show ?thesis
    by (simp add: unat_of_nat)
qed

lemma start_receive_fields:
  "\<exists>s'. start_receive s = Inr s' \<and>
        channr s' = of_nat ((unat (channr s) + unat (chanskip s)) mod 47) \<and>
        chanskip s' = chanskip s \<and> bindHopData s' = bindHopData s \<and>
        calData s' = calData s \<and> bindTxId s' = bindTxId s \<and> bindcount s' = bindcount s \<and>
        pending s' = pending s @ [(3, Send_normal_packet)]"
  by (simp add: start_receive_def Let_def setChannel_def io_defs unat_mod_47)

lemma run_snoc:
  "run (cvs @ [cv]) s = (case run cvs s of Inl e \<Rightarrow> Inl e | Inr s' \<Rightarrow> tick cv s')"
  by (induction cvs arbitrary: s) (auto split: sum.splits)

lemma tick_single:
  "pending s = [(d, cb)] \<Longrightarrow> tick cv s = dispatch cb cv (s\<lparr>pending := []\<rparr>)"
  by (simp add: tick_def)


lemma unat_bindcount_Suc:
  "unat (c :: u16) = n \<Longrightarrow> n \<le> 500 \<Longrightarrow> unat (c + 1) = n + 1"
  by (simp add: unat_word_ariths)

lemma bindcount_gt_500: "(c :: u16) > 500 \<longleftrightarrow> unat c > 500"
  by (simp add: word_less_nat_alt)

lemma run_invariant:
  assumes "pending s0 = [(d0, Send_bind_packet)]" and "bindcount s0 = 0"
    and "channr s0 = 0" and "chanskip s0 = 1"
  shows "\<exists>s d. run cvs s0 = Inr s \<and>
           pending s = [(d, if length cvs \<le> 500 then Send_bind_packet
                            else if even (length cvs - 501) then Send_normal_packet
                            else Start_receive)] \<and>
           chanskip s = 1 \<and>
           unat (bindcount s) = min (length cvs) 501 \<and>
           unat (channr s) = ((length cvs - 501) div 2) mod 47 \<and>
           bindHopData s = bindHopData s0 \<and> calData s = calData s0 \<and>
           bindTxId s = bindTxId s0"
proof (induction cvs rule: rev_induct)
  case Nil
  then show ?case
    using assms by simp
next
  case (snoc cv cvs)
  define n where "n = length cvs"
  from snoc obtain s d where run: "run cvs s0 = Inr s"
    and pend: "pending s = [(d, if n \<le> 500 then Send_bind_packet
                            else if even (n - 501) then Send_normal_packet
                            else Start_receive)]"
    and skip: "chanskip s = 1"
    and cnt: "unat (bindcount s) = min n 501"
    and chn: "unat (channr s) = ((n - 501) div 2) mod 47"
    and tabs: "bindHopData s = bindHopData s0" "calData s = calData s0"
              "bindTxId s = bindTxId s0"
    unfolding n_def by blast
  have step: "run (cvs @ [cv]) s0 = tick cv s"
    by (simp add: run_snoc run)
  have len: "length (cvs @ [cv]) = n + 1"
    by (simp add: n_def)
  consider (bind) "n \<le> 500" | (tx) "500 < n" "even (n - 501)" | (rx) "500 < n" "odd (n - 501)"
    by (cases "n \<le> 500") auto
  then show ?case
  proof cases
    case bind
    then have p: "pending s = [(d, Send_bind_packet)]"
      using pend by simp
    have c: "unat (bindcount s) = n"
      using cnt bind by simp
    have c1: "unat (bindcount s + 1) = n + 1"
      using c bind by (rule unat_bindcount_Suc)
    have t: "tick cv s = Inr (send_bind_packet (s\<lparr>pending := []\<rparr>))"
      by (simp add: tick_single [OF p])
    show ?thesis
      unfolding step len t
      using bind skip chn tabs c1
      by (auto simp: send_bind_packet_fields bindcount_gt_500)
  next
    case tx
    then have p: "pending s = [(d, Send_normal_packet)]"
      using pend by simp
    have t: "tick cv s = Inr (send_normal_packet cv (s\<lparr>pending := []\<rparr>))"
      by (simp add: tick_single [OF p])
    from tx(2) obtain j where j: "n - 501 = 2 * j"
      by (rule evenE)
    then have j1: "n + 1 - 501 = 2 * j + 1"
      using tx by simp
    show ?thesis
      unfolding step len t
      using tx skip chn tabs cnt j j1
      by (simp add: send_normal_packet_fields)
  next
    case rx
    then have p: "pending s = [(d, Start_receive)]"
      using pend by simp
    have t: "tick cv s = start_receive (s\<lparr>pending := []\<rparr>)"
      by (simp add: tick_single [OF p])
    from rx(2) obtain j where j: "n - 501 = 2 * j + 1"
      by (rule oddE)
    then have j1: "n + 1 - 501 = 2 * (j + 1)"
      using rx by simp
    from start_receive_fields [of "s\<lparr>pending := []\<rparr>"]
    obtain s' where s': "start_receive (s\<lparr>pending := []\<rparr>) = Inr s'"
      "channr s' = of_nat ((unat (channr s) + unat (chanskip s)) mod 47)"
      "chanskip s' = chanskip s" "bindHopData s' = bindHopData s"
      "calData s' = calData s" "bindTxId s' = bindTxId s" "bindcount s' = bindcount s"
      "pending s' = [(3, Send_normal_packet)]"
      by auto
    have "unat (channr s') = (j + 1) mod 47"
      using chn j by (simp add: s'(2) skip unat_mod_47 mod_simps)
    then show ?thesis
      unfolding step len t
      using rx skip tabs cnt j1 s'
      by simp
  qed
qed


lemma wait_radio_id_statics:
  "wait_radio_id chip s = Some s' \<Longrightarrow> s' = s\<lparr>trace := trace s', nreads := nreads s'\<rparr>"
proof (induction chip s s' rule: wait_radio_id.raw_induct [rotated 1, consumes 1])
  case (1 wait chip s s')
  show ?case
  proof (cases "chip (nreads s) \<noteq> 0x80")
    case True
    with 1(2) have "wait chip (delay_ms 200 (snd (cc2500_ReadReg chip (0x30 OR 0xC0) s))) = Some s'"
      by (simp add: cc2500_ReadReg_def Let_def)
    from 1(1) [OF this] show ?thesis
      by (simp add: cc2500_ReadReg_def io_defs)
  next
    case False
    note part = this
    show ?thesis
    proof (cases "chip (nreads s + 1) \<noteq> 0x03")
      case True
      with part 1(2)
      have "wait chip (delay_ms 200 (snd (cc2500_ReadReg chip (0x31 OR 0xC0)
               (snd (cc2500_ReadReg chip (0x30 OR 0xC0) s))))) = Some s'"
        by (simp add: cc2500_ReadReg_def Let_def io_defs)
      from 1(1) [OF this] show ?thesis
        by (simp add: cc2500_ReadReg_def io_defs)
    next
      case False
      with part 1(2) show ?thesis
        by (auto simp: cc2500_ReadReg_def Let_def io_defs)
    qed
  qed
qed

lemma cal_step_fields:
  "chanskip (cal_step chip i s) = chanskip s"
  "channr (cal_step chip i s) = channr s"
  "bindcount (cal_step chip i s) = bindcount s"
  "idx (cal_step chip i s) = idx s"
  "pending (cal_step chip i s) = pending s"
  "bindTxId (cal_step chip i s) = bindTxId s"
  "bindHopData (cal_step chip i s) = bindHopData s"
  "length (calData (cal_step chip i s)) = length (calData s)"
  by (simp_all add: cal_step_def Let_def cc2500_ReadReg_def set_calData_def io_defs)

lemma cal_loop_fields:
  "chanskip (cal_loop chip i s) = chanskip s \<and>
   channr (cal_loop chip i s) = channr s \<and>
   bindcount (cal_loop chip i s) = bindcount s \<and>
   idx (cal_loop chip i s) = idx s \<and>
   pending (cal_loop chip i s) = pending s \<and>
   bindTxId (cal_loop chip i s) = bindTxId s \<and>
   bindHopData (cal_loop chip i s) = bindHopData s \<and>
   length (calData (cal_loop chip i s)) = length (calData s)"
proof (induction chip i s rule: cal_loop.induct)
  case (1 chip i s)
  show ?case
  proof (cases "i < NUM_CHANNELS")
    case True
    have "cal_loop chip i s = cal_loop chip (i + 1) (cal_step chip i s)"
      using True by (subst cal_loop.simps) simp
    then show ?thesis
      using 1 [OF True] by (simp add: cal_step_fields)
  next
    case False
    then show ?thesis
      by (subst (1 2 3 4 5 6 7 8) cal_loop.simps) simp
  qed
qed

lemma WriteReg_fields:
  "chanskip (cc2500_WriteReg reg v s) = chanskip s"
  "channr (cc2500_WriteReg reg v s) = channr s"
  "bindcount (cc2500_WriteReg reg v s) = bindcount s"
  "idx (cc2500_WriteReg reg v s) = idx s"
  "pending (cc2500_WriteReg reg v s) = pending s"
  "bindTxId (cc2500_WriteReg reg v s) = bindTxId s"
  "bindHopData (cc2500_WriteReg reg v s) = bindHopData s"
  "calData (cc2500_WriteReg reg v s) = calData s"
  by (simp_all add: io_defs)

lemma Strobe_fields:
  "chanskip (cc2500_Strobe a s) = chanskip s"
  "channr (cc2500_Strobe a s) = channr s"
  "bindcount (cc2500_Strobe a s) = bindcount s"
  "idx (cc2500_Strobe a s) = idx s"
  "pending (cc2500_Strobe a s) = pending s"
  "bindTxId (cc2500_Strobe a s) = bindTxId s"
  "bindHopData (cc2500_Strobe a s) = bindHopData s"
  "calData (cc2500_Strobe a s) = calData s"
  by (simp_all add: io_defs)

lemma delay_ms_fields:
  "chanskip (delay_ms n s) = chanskip s"
  "channr (delay_ms n s) = channr s"
  "bindcount (delay_ms n s) = bindcount s"
  "idx (delay_ms n s) = idx s"
  "pending (delay_ms n s) = pending s"
  "bindTxId (delay_ms n s) = bindTxId s"
  "bindHopData (delay_ms n s) = bindHopData s"
  "calData (delay_ms n s) = calData s"
  by (simp_all add: io_defs)

lemma Reset_fields:
  "chanskip (snd (cc2500_Reset chip s)) = chanskip s"
  "channr (snd (cc2500_Reset chip s)) = channr s"
  "bindcount (snd (cc2500_Reset chip s)) = bindcount s"
  "idx (snd (cc2500_Reset chip s)) = idx s"
  "pending (snd (cc2500_Reset chip s)) = pending s"
  "bindTxId (snd (cc2500_Reset chip s)) = bindTxId s"
  "bindHopData (snd (cc2500_Reset chip s)) = bindHopData s"
  "calData (snd (cc2500_Reset chip s)) = calData s"
  by (simp_all add: cc2500_Reset_def cc2500_ReadReg_def io_defs)

lemma config_writes_fields:
  "chanskip (foldl (\<lambda>t (reg, v). cc2500_WriteReg reg v t) s xs) = chanskip s \<and>
   channr (foldl (\<lambda>t (reg, v). cc2500_WriteReg reg v t) s xs) = channr s \<and>
   bindcount (foldl (\<lambda>t (reg, v). cc2500_WriteReg reg v t) s xs) = bindcount s \<and>
   idx (foldl (\<lambda>t (reg, v). cc2500_WriteReg reg v t) s xs) = idx s \<and>
   pending (foldl (\<lambda>t (reg, v). cc2500_WriteReg reg v t) s xs) = pending s \<and>
   bindTxId (foldl (\<lambda>t (reg, v). cc2500_WriteReg reg v t) s xs) = bindTxId s \<and>
   bindHopData (foldl (\<lambda>t (reg, v). cc2500_WriteReg reg v t) s xs) = bindHopData s \<and>
   calData (foldl (\<lambda>t (reg, v). cc2500_WriteReg reg v t) s xs) = calData s"
  by (induction xs arbitrary: s) (auto simp: WriteReg_fields)

lemma radio_init_hw_fields:
  assumes "radio_init_hw chip s = Some s'"
  shows "chanskip s' = 1 \<and> channr s' = channr s \<and> bindcount s' = bindcount s \<and>
         idx s' = idx s \<and> pending s' = pending s \<and>
         bindTxId s' = (bindTxId s)[0 := 15, 1 := 20] \<and>
         length (bindHopData s') = length (bindHopData s) \<and>
         length (calData s') = length (calData s)"
proof -
  from assms obtain s1 where w: "wait_radio_id chip s = Some s1"
    by (auto simp: radio_init_hw_def split: option.splits)
  note st = wait_radio_id_statics [OF w]
  have f: "chanskip s1 = chanskip s" "channr s1 = channr s" "bindcount s1 = bindcount s"
    "idx s1 = idx s" "pending s1 = pending s" "bindTxId s1 = bindTxId s"
    "bindHopData s1 = bindHopData s" "calData s1 = calData s"
    by (subst st, simp)+
  show ?thesis
    using assms f
    by (auto simp: radio_init_hw_def w Let_def cal_loop_fields initialiseData_def
        Reset_fields config_writes_fields setup_hopping_table_def hop_loop_length
        WriteReg_fields Strobe_fields delay_ms_fields)
qed

lemma boot_state:
  assumes "boot chip = Some r"
  shows "\<exists>s0. r = Inr s0 \<and> pending s0 = [(2, Send_bind_packet)] \<and> bindcount s0 = 0 \<and>
           channr s0 = 0 \<and> chanskip s0 = 1 \<and> idx s0 = 0 \<and> bindTxId s0 = [15, 20] \<and>
           length (bindHopData s0) = NUM_CHANNELS \<and> length (calData s0) = NUM_CHANNELS"
proof -
  from assms obtain s1 where i: "radio_init chip init_state = Some s1"
    and r: "r = radio_start_send s1"
    by (auto simp: boot_def)
  from i have "chanskip s1 = 1 \<and> channr s1 = 0 \<and> bindcount s1 = 0 \<and>
         idx s1 = 0 \<and> pending s1 = [] \<and> bindTxId s1 = [15, 20] \<and>
         length (bindHopData s1) = NUM_CHANNELS \<and> length (calData s1) = NUM_CHANNELS"
    unfolding radio_init_def
    by (drule_tac radio_init_hw_fields) (simp add: io_defs init_state_def)
  then show ?thesis
    unfolding r by (simp add: radio_start_send_def setChannel_def io_defs)
qed

text \<open>Bring-up returns when the chip answers the first poll with 0x80 and 0x03.\<close>

lemma boot_returns:
  assumes "chip 0 = 0x80" and "chip 1 = 0x03"
  shows "\<exists>r. boot chip = Some r"
proof -
  have "\<exists>s. wait_radio_id chip s0 = Some s" if "nreads s0 = 0" for s0
    using that assms
    by (subst wait_radio_id.simps) (simp add: cc2500_ReadReg_def Let_def io_defs)
  then show ?thesis
    by (auto simp: boot_def radio_init_def radio_init_hw_def io_defs init_state_def
        split: option.splits)
qed

lemma boot_terminates: "\<exists>r. boot (\<lambda>n. if n = 0 then 0x80 else 0x03) = Some r"
  by (rule boot_returns) simp_all

lemma upt_0_Suc_Cons: "[0..<Suc n] = 0 # map Suc [0..<n]"
  by (simp add: map_Suc_upt upt_conv_Cons del: upt_Suc)

lemma mod_step: "((c + 1) mod 47 + Suc j) mod 47 = (c + Suc (Suc j)) mod (47 :: nat)"
  using mod_add_left_eq [of "c + 1" 47 "Suc j"] by simp

lemma hop_cycles_steady:
  assumes "pending s = [(d, Send_normal_packet)]" and "chanskip s = 1"
  shows "hop_cycles cvs s =
           map (\<lambda>j. of_nat ((unat (channr s) + Suc j) mod 47)) [0..<length cvs]"
  using assms
proof (induction cvs arbitrary: s d)
  case Nil
  then show ?case by simp
next
  case (Cons cv cvs)
  define s1 where "s1 = send_normal_packet cv (s\<lparr>pending := []\<rparr>)"
  have t1: "tick cv s = Inr s1"
    by (simp add: tick_single [OF Cons.prems(1)] s1_def)
  have p1: "pending s1 = [(6, Start_receive)]"
    by (simp add: s1_def send_normal_packet_fields)
  from start_receive_fields [of "s1\<lparr>pending := []\<rparr>"]
  obtain s2 where s2: "start_receive (s1\<lparr>pending := []\<rparr>) = Inr s2"
    "channr s2 = of_nat ((unat (channr s1) + unat (chanskip s1)) mod 47)"
    "chanskip s2 = chanskip s1" "pending s2 = [(3, Send_normal_packet)]"
    by auto
  have t2: "tick cv s1 = Inr s2"
    by (simp add: tick_single [OF p1] s2(1))
  have c2: "channr s2 = of_nat ((unat (channr s) + 1) mod 47)"
    using Cons.prems(2) by (simp add: s2(2) s1_def send_normal_packet_fields)
  have k2: "chanskip s2 = 1"
    using Cons.prems(2) by (simp add: s2(3) s1_def send_normal_packet_fields)
  have "hop_cycles (cv # cvs) s = channr s2 # hop_cycles cvs s2"
    by (simp add: t1 t2)
  also have "hop_cycles cvs s2 =
      map (\<lambda>j. of_nat ((unat (channr s2) + Suc j) mod 47)) [0..<length cvs]"
    by (rule Cons.IH [OF s2(4) k2])
  also have "\<dots> = map (\<lambda>j. of_nat ((unat (channr s) + Suc (Suc j)) mod 47)) [0..<length cvs]"
    by (simp only: c2 unat_mod_47 mod_step)
  finally show ?case
    by (simp add: c2 upt_0_Suc_Cons comp_def del: upt_Suc)
qed

lemma full_cycle_nat:
  "distinct (map (\<lambda>j. (c + Suc j) mod 47) [0..<47]) \<and>
   set (map (\<lambda>j. (c + Suc j) mod 47) [0..<47]) = {0..<47}" (is "distinct ?ns \<and> set ?ns = _")
proof -
  have far: "(c + Suc a) mod 47 \<noteq> (c + Suc b) mod 47" if "a < b" "b - a < 47" for a b :: nat
  proof
    assume "(c + Suc a) mod 47 = (c + Suc b) mod 47"
    then have "47 dvd (c + Suc b) - (c + Suc a)"
      using that(1) by (metis mod_eq_dvd_iff_nat add_le_cancel_left less_imp_le Suc_le_mono)
    then have "47 dvd b - a"
      by simp
    then show False
      using that by (auto dest: dvd_imp_le)
  qed
  have inj: "inj_on (\<lambda>j. (c + Suc j) mod 47) (set [0..<47])"
  proof (rule inj_onI)
    fix x y :: nat
    assume x: "x \<in> set [0..<47]" and y: "y \<in> set [0..<47]"
      and eq: "(c + Suc x) mod 47 = (c + Suc y) mod 47"
    show "x = y"
    proof (rule ccontr)
      assume ne: "x \<noteq> y"
      show False
      proof (cases "x < y")
        case True
        moreover have "y - x < 47"
          using x y by auto
        ultimately show False
          using far [of x y] eq by simp
      next
        case False
        then have "y < x"
          using ne by simp
        moreover have "x - y < 47"
          using x y by auto
        ultimately show False
          using far [of y x] eq by simp
      qed
    qed
  qed
  have d: "distinct ?ns"
    unfolding distinct_map using inj by (simp del: upt_Suc set_upt)
  have "set ?ns \<subseteq> {0..<47}"
    by auto
  moreover have "card (set ?ns) = 47"
  proof -
    have "card (set ?ns) = length ?ns"
      using d by (rule distinct_card)
    also have "length ?ns = 47"
      by simp
    finally show ?thesis .
  qed
  ultimately have "set ?ns = {0..<47}"
    by (intro card_subset_eq) simp_all
  with d show ?thesis
    by simp
qed

lemma hop_cycles_full:
  assumes "pending s = [(d, Send_normal_packet)]" and "chanskip s = 1"
    and "length cvs = 47"
  shows "distinct (hop_cycles cvs s) \<and> unat ` set (hop_cycles cvs s) = {0..<47}"
proof -
  define c where "c = unat (channr s)"
  have h: "hop_cycles cvs s = map of_nat (map (\<lambda>j. (c + Suc j) mod 47) [0..<47])"
    using hop_cycles_steady [OF assms(1,2), of cvs] assms(3)
    by (simp add: c_def comp_def del: upt_Suc)
  have u: "map unat (hop_cycles cvs s) = map (\<lambda>j. (c + Suc j) mod 47) [0..<47]"
    unfolding h by (simp add: comp_def unat_mod_47 del: upt_Suc)
  have "distinct (map unat (hop_cycles cvs s))"
    unfolding u using full_cycle_nat [of c] by simp
  then have "distinct (hop_cycles cvs s)"
    by (simp add: distinct_map)
  moreover have "unat ` set (hop_cycles cvs s) = set (map unat (hop_cycles cvs s))"
    by simp
  ultimately show ?thesis
    unfolding u using full_cycle_nat [of c] by simp
qed


text \<open>
  C8: a bind step whose incremented counter exceeds 500 hands \<open>send_normal_packet\<close> to the
  timer and otherwise \<open>send_bind_packet\<close>. From power-up, after any number \<open>n\<close> of
  sequencer steps exactly one callback is pending: the bind step while \<open>n \<le> 500\<close>, and
  from step 501 on the transmit step and the receive-window step in strict alternation,
  starting with the transmit step; the bind counter stays at 501.
\<close>

theorem sequencer_cadence:
  assumes "boot chip = Some r"
  shows "(if bindcount (send_bind_packet t) > 500
          then pending (send_bind_packet t) = pending t @ [(9, Send_normal_packet)]
          else pending (send_bind_packet t) = pending t @ [(9, Send_bind_packet)]) \<and>
         (\<exists>s0. r = Inr s0 \<and>
            (\<forall>cvs. \<exists>s d. run cvs s0 = Inr s \<and>
               unat (bindcount s) = min (length cvs) 501 \<and>
               pending s = [(d, if length cvs \<le> 500 then Send_bind_packet
                                else if even (length cvs - 501) then Send_normal_packet
                                else Start_receive)]))"
proof -
  from boot_state [OF assms] obtain s0 where s0: "r = Inr s0"
    "pending s0 = [(2, Send_bind_packet)]" "bindcount s0 = 0" "channr s0 = 0" "chanskip s0 = 1"
    by blast
  have "\<exists>s d. run cvs s0 = Inr s \<and>
               unat (bindcount s) = min (length cvs) 501 \<and>
               pending s = [(d, if length cvs \<le> 500 then Send_bind_packet
                                else if even (length cvs - 501) then Send_normal_packet
                                else Start_receive)]" for cvs
    using run_invariant [OF s0(2-5), of cvs] by blast
  then show ?thesis
    using s0(1) by (simp add: send_bind_packet_fields)
qed

theorem sequencer_cadence_witness:
  "\<exists>r s0 s1 s2 s3 d1 d2 d3.
     boot (\<lambda>n. if n = 0 then 0x80 else 0x03) = Some r \<and> r = Inr s0 \<and>
     run (replicate 500 (\<lambda>i. 0)) s0 = Inr s1 \<and> pending s1 = [(d1, Send_bind_packet)] \<and>
     run (replicate 501 (\<lambda>i. 0)) s0 = Inr s2 \<and> pending s2 = [(d2, Send_normal_packet)] \<and>
     run (replicate 502 (\<lambda>i. 0)) s0 = Inr s3 \<and> pending s3 = [(d3, Start_receive)]"
proof -
  from boot_terminates obtain r where b: "boot (\<lambda>n. if n = 0 then 0x80 else 0x03) = Some r"
    by blast
  from sequencer_cadence [OF b] obtain s0 where s0: "r = Inr s0"
    and all: "\<And>cvs. \<exists>s d. run cvs s0 = Inr s \<and>
               unat (bindcount s) = min (length cvs) 501 \<and>
               pending s = [(d, if length cvs \<le> 500 then Send_bind_packet
                                else if even (length cvs - 501) then Send_normal_packet
                                else Start_receive)]"
    by blast
  from all [of "replicate 500 (\<lambda>i. 0)"] obtain s1 d1
    where 1: "run (replicate 500 (\<lambda>i. 0)) s0 = Inr s1" "pending s1 = [(d1, Send_bind_packet)]"
    by auto
  from all [of "replicate 501 (\<lambda>i. 0)"] obtain s2 d2
    where 2: "run (replicate 501 (\<lambda>i. 0)) s0 = Inr s2" "pending s2 = [(d2, Send_normal_packet)]"
    by auto
  from all [of "replicate 502 (\<lambda>i. 0)"] obtain s3 d3
    where 3: "run (replicate 502 (\<lambda>i. 0)) s0 = Inr s3" "pending s3 = [(d3, Start_receive)]"
    by auto
  from b s0 1 2 3 show ?thesis
    by blast
qed

text \<open>
  C9: the hop index is 0 in the zeroed statics and after power-up; every receive-window
  step sets it to \<open>(channr + chanskip) mod 47\<close>; and in every state the sequencer reaches
  it is below 47, both tables have 47 entries, no step fails with an out-of-bounds access,
  and \<open>setChannel\<close> on the hop index is in bounds.
\<close>

theorem channr_in_bounds:
  assumes "boot chip = Some r"
  shows "channr init_state = 0 \<and>
         (\<exists>t'. start_receive t = Inr t' \<and>
               channr t' = of_nat ((unat (channr t) + unat (chanskip t)) mod 47)) \<and>
         (\<exists>s0. r = Inr s0 \<and> channr s0 = 0 \<and>
            (\<forall>cvs. \<exists>s. run cvs s0 = Inr s \<and> unat (channr s) < NUM_CHANNELS \<and>
               length (calData s) = NUM_CHANNELS \<and> length (bindHopData s) = NUM_CHANNELS \<and>
               (\<exists>s'. setChannel (channr s) s = Inr s')))"
proof -
  from boot_state [OF assms] obtain s0 where s0: "r = Inr s0"
    "pending s0 = [(2, Send_bind_packet)]" "bindcount s0 = 0" "channr s0 = 0" "chanskip s0 = 1"
    and len: "length (bindHopData s0) = NUM_CHANNELS" "length (calData s0) = NUM_CHANNELS"
    by blast
  have "\<exists>s. run cvs s0 = Inr s \<and> unat (channr s) < NUM_CHANNELS \<and>
               length (calData s) = NUM_CHANNELS \<and> length (bindHopData s) = NUM_CHANNELS \<and>
               (\<exists>s'. setChannel (channr s) s = Inr s')" for cvs
  proof -
    from run_invariant [OF s0(2-5), of cvs] obtain s where s: "run cvs s0 = Inr s"
      "unat (channr s) = ((length cvs - 501) div 2) mod 47"
      "bindHopData s = bindHopData s0" "calData s = calData s0"
      by blast
    have "unat (channr s) < NUM_CHANNELS"
      by (simp add: s(2))
    then show ?thesis
      using s len by (auto simp: setChannel_def)
  qed
  moreover from start_receive_fields [of t]
  have "\<exists>t'. start_receive t = Inr t' \<and>
               channr t' = of_nat ((unat (channr t) + unat (chanskip t)) mod 47)"
    by blast
  ultimately show ?thesis
    using s0(1,4) by (simp add: init_state_def)
qed

theorem channr_in_bounds_witness:
  "\<exists>r s0 s. boot (\<lambda>n. if n = 0 then 0x80 else 0x03) = Some r \<and> r = Inr s0 \<and>
     run (replicate 600 (\<lambda>i. 0)) s0 = Inr s \<and> unat (channr s) < NUM_CHANNELS"
proof -
  from boot_terminates obtain r where b: "boot (\<lambda>n. if n = 0 then 0x80 else 0x03) = Some r"
    by blast
  from channr_in_bounds [OF b] obtain s0 where s0: "r = Inr s0"
    and all: "\<And>cvs. \<exists>s. run cvs s0 = Inr s \<and> unat (channr s) < NUM_CHANNELS"
    by blast
  from all [of "replicate 600 (\<lambda>i. 0)"] b s0 show ?thesis
    by blast
qed

text \<open>
  C10: in every state the sequencer reaches after power-up the hop skip is 1; after \<open>n\<close>
  steps the hop index is \<open>((n - 501) div 2) mod 47\<close>, one more (modulo 47) after each
  receive-window step; and from any state in which the transmit step is due, the hop
  indices of 47 consecutive transmit/receive cycles are pairwise different and are exactly
  the slots 0 to 46.
\<close>

theorem chanskip_constant_full_cycle:
  assumes "boot chip = Some r"
  shows "\<exists>s0. r = Inr s0 \<and>
           (\<forall>cvs. \<exists>s. run cvs s0 = Inr s \<and> chanskip s = 1 \<and>
              unat (channr s) = ((length cvs - 501) div 2) mod 47 \<and>
              (500 < length cvs \<and> even (length cvs - 501) \<longrightarrow>
                 (\<forall>cs. length cs = 47 \<longrightarrow>
                    distinct (hop_cycles cs s) \<and> unat ` set (hop_cycles cs s) = {0..<47})))"
proof -
  from boot_state [OF assms] obtain s0 where s0: "r = Inr s0"
    "pending s0 = [(2, Send_bind_packet)]" "bindcount s0 = 0" "channr s0 = 0" "chanskip s0 = 1"
    by blast
  have "\<exists>s. run cvs s0 = Inr s \<and> chanskip s = 1 \<and>
              unat (channr s) = ((length cvs - 501) div 2) mod 47 \<and>
              (500 < length cvs \<and> even (length cvs - 501) \<longrightarrow>
                 (\<forall>cs. length cs = 47 \<longrightarrow>
                    distinct (hop_cycles cs s) \<and> unat ` set (hop_cycles cs s) = {0..<47}))"
    for cvs
  proof -
    from run_invariant [OF s0(2-5), of cvs] obtain s d where s: "run cvs s0 = Inr s"
      "pending s = [(d, if length cvs \<le> 500 then Send_bind_packet
                        else if even (length cvs - 501) then Send_normal_packet
                        else Start_receive)]"
      "chanskip s = 1" "unat (channr s) = ((length cvs - 501) div 2) mod 47"
      by blast
    have "distinct (hop_cycles cs s) \<and> unat ` set (hop_cycles cs s) = {0..<47}"
      if "500 < length cvs" "even (length cvs - 501)" "length cs = 47" for cs
    proof -
      have "pending s = [(d, Send_normal_packet)]"
        using s(2) that(1,2) by simp
      from hop_cycles_full [OF this s(3) that(3)] show ?thesis .
    qed
    then show ?thesis
      using s(1,3,4) by blast
  qed
  then show ?thesis
    using s0(1) by blast
qed

theorem chanskip_constant_full_cycle_witness:
  "\<exists>r s0 s. boot (\<lambda>n. if n = 0 then 0x80 else 0x03) = Some r \<and> r = Inr s0 \<and>
     run (replicate 501 (\<lambda>i. 0)) s0 = Inr s \<and> chanskip s = 1 \<and>
     500 < length (replicate 501 (\<lambda>i :: u8. 0 :: u16)) \<and>
     even (length (replicate 501 (\<lambda>i :: u8. 0 :: u16)) - 501) \<and>
     length (replicate 47 (\<lambda>i :: u8. 0 :: u16)) = 47 \<and>
     distinct (hop_cycles (replicate 47 (\<lambda>i. 0)) s) \<and>
     unat ` set (hop_cycles (replicate 47 (\<lambda>i. 0)) s) = {0..<47}"
proof -
  from boot_terminates obtain r where b: "boot (\<lambda>n. if n = 0 then 0x80 else 0x03) = Some r"
    by blast
  have h: "500 < length (replicate 501 (\<lambda>i :: u8. 0 :: u16)) \<and>
     even (length (replicate 501 (\<lambda>i :: u8. 0 :: u16)) - 501)"
    by simp
  have h47: "length (replicate 47 (\<lambda>i :: u8. 0 :: u16)) = 47"
    by simp
  from chanskip_constant_full_cycle [OF b] obtain s0 where s0: "r = Inr s0"
    and all: "\<And>cvs. \<exists>s. run cvs s0 = Inr s \<and> chanskip s = 1 \<and>
              unat (channr s) = ((length cvs - 501) div 2) mod 47 \<and>
              (500 < length cvs \<and> even (length cvs - 501) \<longrightarrow>
                 (\<forall>cs. length cs = 47 \<longrightarrow>
                    distinct (hop_cycles cs s) \<and> unat ` set (hop_cycles cs s) = {0..<47}))"
    by blast
  from all [of "replicate 501 (\<lambda>i. 0)"] h obtain s
    where s: "run (replicate 501 (\<lambda>i. 0)) s0 = Inr s" "chanskip s = 1"
      "\<forall>cs. length cs = 47 \<longrightarrow>
          distinct (hop_cycles cs s) \<and> unat ` set (hop_cycles cs s) = {0..<47}"
    by blast
  from s(3) h47 have "distinct (hop_cycles (replicate 47 (\<lambda>i. 0)) s) \<and>
     unat ` set (hop_cycles (replicate 47 (\<lambda>i. 0)) s) = {0..<47}"
    by blast
  with b s0 s(1,2) h h47 show ?thesis
    by blast
qed

end
